theory Spec2Isabelle
  imports Complex_Main "HOL-Library.Sublist"
begin

section \<open>Values\<close>

text \<open>
  Timestamps, sample weights and relevances are Python floats. A finite float is a real
  number and the comparison of two floats is the comparison of these reals, so the values
  are modelled as reals and \<open><=\<close> is exact (no NaN, no infinity). The difference of two
  floats is rounded, so it is not the difference of the reals: the program's float
  subtraction is a parameter \<open>fsub\<close> of every function that subtracts, and what is proved
  holds for every \<open>fsub\<close>. The one addition, \<open>+= 1.0\<close> on a clock, is the exact sum, as
  it is on the integer-valued clocks it is meant for. Python's unbounded \<open>int\<close> is \<open>int\<close>.

  \<open>ClfTarget\<close> is river's \<open>Union[bool, str, int]\<close>; a feature dictionary \<open>x\<close> is never
  inspected by the code modelled here and is kept as an association list.
\<close>

datatype ClfTarget = Bool_target bool | Str_target string | Int_target int

type_synonym features = "(string \<times> real) list"

datatype error = ValueError string | IndexError string

text \<open>Decimal rendering of an integer, as an f-string prints it.\<close>

fun string_of_nat :: "nat \<Rightarrow> string" where
  "string_of_nat n =
     (if n < 10 then [char_of (48 + n)]
      else string_of_nat (n div 10) @ [char_of (48 + n mod 10)])"

declare string_of_nat.simps [simp del]

definition string_of_int :: "int \<Rightarrow> string" where
  "string_of_int i =
     (if i < 0 then CHR ''-'' # string_of_nat (nat (- i)) else string_of_nat (nat i))"

section \<open>utils.py: Observation\<close>

text \<open>
  The fields of the class \<open>Observation\<close>. The fields \<open>x\<close> and \<open>y\<close> are named \<open>obs_x\<close> and
  \<open>obs_y\<close>, so that they do not capture the variables of the same name.
\<close>

record Observation =
  obs_x :: features
  obs_y :: "ClfTarget option"
  seen_at :: real
  active_state_id :: int
  sample_weight :: real
  predictions :: "int \<rightharpoonup> ClfTarget"
  active_state_relevance :: "real option"
  is_stable :: bool

text \<open>\<open>Observation.__init__\<close>\<close>

definition Observation_init ::
  "features \<Rightarrow> ClfTarget option \<Rightarrow> real \<Rightarrow> int \<Rightarrow> real \<Rightarrow> Observation" where
  "Observation_init x y t i w =
     \<lparr> obs_x = x, obs_y = y, seen_at = t, active_state_id = i, sample_weight = w,
       predictions = Map.empty, active_state_relevance = None, is_stable = False \<rparr>"

text \<open>\<open>Observation.add_prediction\<close>: \<open>self.predictions[state_id] = p\<close>.\<close>

definition add_prediction :: "ClfTarget \<Rightarrow> int \<Rightarrow> Observation \<Rightarrow> Observation" where
  "add_prediction p state_id ob = ob\<lparr>predictions := (predictions ob)(state_id \<mapsto> p)\<rparr>"

text \<open>
  \<open>Observation.add_active_state_relevance\<close>. The method either raises or returns
  \<open>None\<close>; the observation after the call is returned beside the outcome, since a Python
  object keeps whatever was assigned before a raise.
\<close>

definition add_active_state_relevance ::
  "real \<Rightarrow> int \<Rightarrow> Observation \<Rightarrow> (error + unit) \<times> Observation" where
  "add_active_state_relevance v i ob =
     (if i \<noteq> active_state_id ob
      then (Inl (ValueError (''Attempting to set active state relevance for wrong state ''
                               @ string_of_int i @ ''.'')), ob)
      else (Inr (), ob\<lparr>active_state_relevance := Some v\<rparr>))"

text \<open>A sequence of \<open>add_prediction\<close> calls on one observation, first call first.\<close>

fun add_prediction_calls :: "(ClfTarget \<times> int) list \<Rightarrow> Observation \<Rightarrow> Observation" where
  "add_prediction_calls [] ob = ob"
| "add_prediction_calls ((p, k) # cs) ob = add_prediction_calls cs (add_prediction p k ob)"

section \<open>utils.py: get\_drift\_detector\_estimate\<close>

text \<open>
  A detector is an object of a class of the river library; the function only asks whether
  it has an attribute and reads it. The detector is modelled by its attributes: a map from
  attribute names to float values.
\<close>

type_synonym DriftDetector = "string \<rightharpoonup> real"

definition hasattr :: "DriftDetector \<Rightarrow> string \<Rightarrow> bool" where
  "hasattr detector name = (detector name \<noteq> None)"

definition get_drift_detector_estimate :: "DriftDetector \<Rightarrow> error + real" where
  "get_drift_detector_estimate detector =
     (if hasattr detector ''estimation''
      then (case detector ''estimation'' of
              Some v \<Rightarrow> Inr v
            | None \<Rightarrow> Inl (ValueError ''Cannot get estimate from detector. Either use a different detector or use the 'any' mode. ''))
      else Inl (ValueError ''Cannot get estimate from detector. Either use a different detector or use the 'any' mode. ''))"

section \<open>The store of observations\<close>

text \<open>
  Python holds observations by reference: the three deques of a buffer and the lists of
  released observations hold references to the same objects, and an assignment to a field
  through one reference is seen through all. The store is the list of all observation
  objects created so far, and a reference is an index into it. A reference held by the
  program is always below the length of the store; \<open>Observation(...)\<close> appends.
\<close>

type_synonym ref = nat

type_synonym heap = "Observation list"

definition alloc :: "Observation \<Rightarrow> heap \<Rightarrow> ref \<times> heap" where
  "alloc ob h = (length h, h @ [ob])"

section \<open>collections.deque\<close>

text \<open>
  A deque is the list of its elements, leftmost first. \<open>append\<close> on a deque with
  \<open>maxlen\<close> adds on the right and then drops the leftmost element when the deque is longer
  than \<open>maxlen\<close> (so a deque of \<open>maxlen\<close> 0 stays empty); the constructor refuses a negative
  \<open>maxlen\<close>.
\<close>

definition deque_append :: "nat \<Rightarrow> 'a list \<Rightarrow> 'a \<Rightarrow> 'a list" where
  "deque_append maxlen d v = (if maxlen < length (d @ [v]) then tl (d @ [v]) else d @ [v])"

section \<open>buffer.py: ObservationBuffer\<close>

record ObservationBuffer =
  window_size :: int
  buffer :: "ref list"
  active_window :: "ref list"
  stable_window :: "ref list"

text \<open>\<open>ObservationBuffer.__init__\<close>; \<open>deque(maxlen=window_size)\<close> raises for a negative size.\<close>

definition ObservationBuffer_init :: "int \<Rightarrow> error + ObservationBuffer" where
  "ObservationBuffer_init w =
     (if w < 0 then Inl (ValueError ''maxlen must be non-negative'')
      else Inr \<lparr> window_size = w, buffer = [], active_window = [], stable_window = [] \<rparr>)"

text \<open>
  The loop of \<open>release_buffer\<close>, on the buffer, the stable window and the list released so
  far: while the buffer is not empty and its first observation has \<open>seen_at <= stable_timestamp\<close>,
  pop it, append it to \<open>released\<close> and to the stable window. The result is
  (released, buffer, stable window).
\<close>

fun release_loop ::
  "heap \<Rightarrow> real \<Rightarrow> nat \<Rightarrow> ref list \<Rightarrow> ref list \<Rightarrow> ref list \<Rightarrow> ref list \<times> ref list \<times> ref list" where
  "release_loop h t m [] stable_w released = (released, [], stable_w)"
| "release_loop h t m (b # bs) stable_w released =
     (if seen_at (h ! b) \<le> t
      then release_loop h t m bs (deque_append m stable_w b) (released @ [b])
      else (released, b # bs, stable_w))"

definition release_buffer ::
  "real \<Rightarrow> heap \<times> ObservationBuffer \<Rightarrow> ref list \<times> heap \<times> ObservationBuffer" where
  "release_buffer stable_timestamp hs =
     (case hs of (h, s) \<Rightarrow>
        (case release_loop h stable_timestamp (nat (window_size s)) (buffer s) (stable_window s) [] of
           (released, b, st) \<Rightarrow> (released, h, s\<lparr>buffer := b, stable_window := st\<rparr>)))"

definition add_observation ::
  "ref \<Rightarrow> real \<Rightarrow> heap \<times> ObservationBuffer \<Rightarrow> ref list \<times> heap \<times> ObservationBuffer" where
  "add_observation observation stable_timestamp hs =
     (case hs of (h, s) \<Rightarrow>
        release_buffer stable_timestamp
          (h, s\<lparr>active_window := deque_append (nat (window_size s)) (active_window s) observation,
                buffer := buffer s @ [observation]\<rparr>))"

definition buffer_data ::
  "features \<Rightarrow> ClfTarget option \<Rightarrow> real \<Rightarrow> real \<Rightarrow> int \<Rightarrow> real \<Rightarrow>
     heap \<times> ObservationBuffer \<Rightarrow> ref list \<times> heap \<times> ObservationBuffer" where
  "buffer_data x y current_timestamp stable_timestamp i w hs =
     (case hs of (h, s) \<Rightarrow>
        (case alloc (Observation_init x y current_timestamp i w) h of
           (r, h1) \<Rightarrow> add_observation r stable_timestamp (h1, s)))"

text \<open>The three pruning loops of \<open>reset_on_drift\<close>: pop from the left while \<open>seen_at <= drift_timestep\<close>.\<close>

fun popleft_while :: "heap \<Rightarrow> real \<Rightarrow> ref list \<Rightarrow> ref list" where
  "popleft_while h d [] = []"
| "popleft_while h d (r # rs) = (if seen_at (h ! r) \<le> d then popleft_while h d rs else r # rs)"

text \<open>The relabelling loops: \<open>ob.active_state_id = new_active_state_id\<close> for each reference.\<close>

fun relabel :: "int \<Rightarrow> ref list \<Rightarrow> heap \<Rightarrow> heap" where
  "relabel i [] h = h"
| "relabel i (r # rs) h = relabel i rs (h[r := (h ! r)\<lparr>active_state_id := i\<rparr>])"

definition reset_on_drift ::
  "int \<Rightarrow> real \<Rightarrow> heap \<times> ObservationBuffer \<Rightarrow> heap \<times> ObservationBuffer" where
  "reset_on_drift new_active_state_id drift_timestep hs =
     (case hs of (h, s) \<Rightarrow>
        (let b = popleft_while h drift_timestep (buffer s);
             a = popleft_while h drift_timestep (active_window s);
             st = popleft_while h drift_timestep (stable_window s);
             h1 = relabel new_active_state_id st h;
             h2 = relabel new_active_state_id b h1
         in (h2, s\<lparr>buffer := b, active_window := a, stable_window := st\<rparr>)))"

subsection \<open>Sequences of calls on one ObservationBuffer\<close>

datatype ob_call =
    Buffer_data features "ClfTarget option" real real int real
  | Add_observation ref real
  | Release_buffer real
  | Reset_on_drift int real

text \<open>One call: what it returns (nothing for \<open>reset_on_drift\<close>), the store and the buffer after it.\<close>

fun ob_step :: "ob_call \<Rightarrow> heap \<times> ObservationBuffer \<Rightarrow> ref list \<times> heap \<times> ObservationBuffer" where
  "ob_step (Buffer_data x y cur st i w) hs = buffer_data x y cur st i w hs"
| "ob_step (Add_observation r st) hs = add_observation r st hs"
| "ob_step (Release_buffer st) hs = release_buffer st hs"
| "ob_step (Reset_on_drift i d) hs = ([], reset_on_drift i d hs)"

text \<open>A sequence of calls, first call first; the outputs are concatenated in call order.\<close>

fun ob_run :: "ob_call list \<Rightarrow> heap \<times> ObservationBuffer \<Rightarrow> ref list \<times> heap \<times> ObservationBuffer" where
  "ob_run [] hs = ([], hs)"
| "ob_run (c # cs) hs =
     (case ob_step c hs of (out, hs1) \<Rightarrow>
        (case ob_run cs hs1 of (outs, hs2) \<Rightarrow> (out @ outs, hs2)))"

text \<open>
  The observations a sequence of calls inserts, in call order, when the store holds \<open>n\<close>
  objects at its start: \<open>buffer_data\<close> inserts the object it creates.
\<close>

fun inserted :: "ob_call list \<Rightarrow> nat \<Rightarrow> ref list" where
  "inserted [] n = []"
| "inserted (Buffer_data x y cur st i w # cs) n = n # inserted cs (Suc n)"
| "inserted (Add_observation r st # cs) n = r # inserted cs n"
| "inserted (Release_buffer st # cs) n = inserted cs n"
| "inserted (Reset_on_drift i d # cs) n = inserted cs n"

text \<open>Every observation passed to \<open>add_observation\<close> is an object of the store.\<close>

fun valid_calls :: "ob_call list \<Rightarrow> nat \<Rightarrow> bool" where
  "valid_calls [] n = True"
| "valid_calls (Buffer_data x y cur st i w # cs) n = valid_calls cs (Suc n)"
| "valid_calls (Add_observation r st # cs) n = (r < n \<and> valid_calls cs n)"
| "valid_calls (Release_buffer st # cs) n = valid_calls cs n"
| "valid_calls (Reset_on_drift i d # cs) n = valid_calls cs n"

text \<open>The stable timestamps passed by a sequence of calls.\<close>

fun thresholds :: "ob_call list \<Rightarrow> real list" where
  "thresholds [] = []"
| "thresholds (Buffer_data x y cur st i w # cs) = st # thresholds cs"
| "thresholds (Add_observation r st # cs) = st # thresholds cs"
| "thresholds (Release_buffer st # cs) = st # thresholds cs"
| "thresholds (Reset_on_drift i d # cs) = thresholds cs"

fun no_reset :: "ob_call list \<Rightarrow> bool" where
  "no_reset [] = True"
| "no_reset (Reset_on_drift i d # cs) = False"
| "no_reset (c # cs) = no_reset cs"

section \<open>buffer.py: SupervisedUnsupervisedBuffer\<close>

text \<open>
  The fields of the class; \<open>window_size\<close> is named \<open>su_window_size\<close> here, and the
  method \<open>reset_on_drift\<close> of this class \<open>su_reset_on_drift\<close>, since \<open>ObservationBuffer\<close>
  has both names too. Every method that subtracts floats takes the float subtraction
  \<open>fsub\<close> as its first argument: \<open>fsub a b\<close> is the program's \<open>a - b\<close>.
\<close>

record SupervisedUnsupervisedBuffer =
  su_window_size :: int
  unsupervised_buffer_timeout :: real
  supervised_buffer_timeout :: real
  release_strategy :: string
  keep_active_window_on_reset :: bool
  supervised_active_timestamp :: real
  unsupervised_active_timestamp :: real
  unsupervised_buffer :: ObservationBuffer
  supervised_buffer :: ObservationBuffer
  stable_unsupervised :: "ref list"
  stable_supervised :: "ref list"

definition SupervisedUnsupervisedBuffer_init ::
  "int \<Rightarrow> real \<Rightarrow> real \<Rightarrow> string \<Rightarrow> error + SupervisedUnsupervisedBuffer" where
  "SupervisedUnsupervisedBuffer_init w unsupervised_timeout supervised_timeout strategy =
     (case ObservationBuffer_init w of
        Inl e \<Rightarrow> Inl e
      | Inr ub \<Rightarrow>
          (case ObservationBuffer_init w of
             Inl e \<Rightarrow> Inl e
           | Inr sb \<Rightarrow>
               Inr \<lparr> su_window_size = w,
                     unsupervised_buffer_timeout = unsupervised_timeout,
                     supervised_buffer_timeout = supervised_timeout,
                     release_strategy = strategy,
                     keep_active_window_on_reset = False,
                     supervised_active_timestamp = 0,
                     unsupervised_active_timestamp = 0,
                     unsupervised_buffer = ub,
                     supervised_buffer = sb,
                     stable_unsupervised = [],
                     stable_supervised = [] \<rparr>))"

definition get_unsupervised_timestamps :: "(real \<Rightarrow> real \<Rightarrow> real) \<Rightarrow> SupervisedUnsupervisedBuffer \<Rightarrow> real \<times> real" where
  "get_unsupervised_timestamps fsub s =
     (if release_strategy s \<in> set [''independent'', ''unsupervised'']
      then (unsupervised_active_timestamp s,
            fsub (unsupervised_active_timestamp s) (unsupervised_buffer_timeout s))
      else (supervised_active_timestamp s,
            fsub (supervised_active_timestamp s) (supervised_buffer_timeout s)))"

definition get_supervised_timestamps :: "(real \<Rightarrow> real \<Rightarrow> real) \<Rightarrow> SupervisedUnsupervisedBuffer \<Rightarrow> real \<times> real" where
  "get_supervised_timestamps fsub s =
     (if release_strategy s \<in> set [''independent'', ''supervised'']
      then (supervised_active_timestamp s,
            fsub (supervised_active_timestamp s) (supervised_buffer_timeout s))
      else (unsupervised_active_timestamp s,
            fsub (unsupervised_active_timestamp s) (unsupervised_buffer_timeout s)))"

text \<open>\<open>d[-1]\<close> on a deque: the rightmost element, an \<open>IndexError\<close> on an empty deque.\<close>

definition deque_last :: "ref list \<Rightarrow> error + ref" where
  "deque_last d = (if d = [] then Inl (IndexError ''deque index out of range'') else Inr (last d))"

definition buffer_unsupervised ::
  "(real \<Rightarrow> real \<Rightarrow> real) \<Rightarrow> features \<Rightarrow> int \<Rightarrow> real \<Rightarrow> real \<Rightarrow> heap \<times> SupervisedUnsupervisedBuffer \<Rightarrow>
     (error + ref) \<times> heap \<times> SupervisedUnsupervisedBuffer" where
  "buffer_unsupervised fsub x i current_timestamp w hs =
     (case hs of (h, s) \<Rightarrow>
        (let s1 = (if current_timestamp = - 1
                   then s\<lparr>unsupervised_active_timestamp := unsupervised_active_timestamp s + 1\<rparr>
                   else s\<lparr>unsupervised_active_timestamp := current_timestamp\<rparr>);
             stable_timestamp = snd (get_unsupervised_timestamps fsub s1)
         in (case buffer_data x None (unsupervised_active_timestamp s1) stable_timestamp i w
                    (h, unsupervised_buffer s1) of
               (released, h1, ub) \<Rightarrow>
                 (deque_last (active_window ub), h1,
                  s1\<lparr>unsupervised_buffer := ub,
                     stable_unsupervised := stable_unsupervised s1 @ released\<rparr>))))"

definition buffer_supervised ::
  "(real \<Rightarrow> real \<Rightarrow> real) \<Rightarrow> features \<Rightarrow> ClfTarget \<Rightarrow> int \<Rightarrow> real \<Rightarrow> real \<Rightarrow> heap \<times> SupervisedUnsupervisedBuffer \<Rightarrow>
     (error + ref) \<times> heap \<times> SupervisedUnsupervisedBuffer" where
  "buffer_supervised fsub x y i current_timestamp w hs =
     (case hs of (h, s) \<Rightarrow>
        (let s1 = (if current_timestamp = - 1
                   then s\<lparr>supervised_active_timestamp := supervised_active_timestamp s + 1\<rparr>
                   else s\<lparr>supervised_active_timestamp := current_timestamp\<rparr>);
             stable_timestamp = snd (get_supervised_timestamps fsub s1)
         in (case buffer_data x (Some y) (supervised_active_timestamp s1) stable_timestamp i w
                    (h, supervised_buffer s1) of
               (released, h1, sb) \<Rightarrow>
                 (deque_last (active_window sb), h1,
                  s1\<lparr>supervised_buffer := sb,
                     stable_supervised := stable_supervised s1 @ released\<rparr>))))"

definition collect_stable_unsupervised ::
  "(real \<Rightarrow> real \<Rightarrow> real) \<Rightarrow> heap \<times> SupervisedUnsupervisedBuffer \<Rightarrow> ref list \<times> heap \<times> SupervisedUnsupervisedBuffer" where
  "collect_stable_unsupervised fsub hs =
     (case hs of (h, s) \<Rightarrow>
        (let stable_timestamp = snd (get_unsupervised_timestamps fsub s)
         in (case release_buffer stable_timestamp (h, unsupervised_buffer s) of
               (released, h1, ub) \<Rightarrow>
                 (stable_unsupervised s @ released, h1,
                  s\<lparr>unsupervised_buffer := ub, stable_unsupervised := []\<rparr>))))"

definition collect_stable_supervised ::
  "(real \<Rightarrow> real \<Rightarrow> real) \<Rightarrow> heap \<times> SupervisedUnsupervisedBuffer \<Rightarrow> ref list \<times> heap \<times> SupervisedUnsupervisedBuffer" where
  "collect_stable_supervised fsub hs =
     (case hs of (h, s) \<Rightarrow>
        (let stable_timestamp = snd (get_supervised_timestamps fsub s)
         in (case release_buffer stable_timestamp (h, supervised_buffer s) of
               (released, h1, sb) \<Rightarrow>
                 (stable_supervised s @ released, h1,
                  s\<lparr>supervised_buffer := sb, stable_supervised := []\<rparr>))))"

text \<open>\<open>int(x)\<close> on a float truncates towards zero.\<close>

definition py_int :: "real \<Rightarrow> int" where
  "py_int v = (if 0 \<le> v then \<lfloor>v\<rfloor> else \<lceil>v\<rceil>)"

text \<open>The slice \<open>xs[-n:]\<close> for \<open>n > 0\<close>: the last \<open>n\<close> elements, the whole list when it is shorter.\<close>

definition slice_last :: "int \<Rightarrow> 'a list \<Rightarrow> 'a list" where
  "slice_last n xs = drop (length xs - nat n) xs"

definition su_reset_on_drift ::
  "(real \<Rightarrow> real \<Rightarrow> real) \<Rightarrow> int \<Rightarrow> real \<Rightarrow> heap \<times> SupervisedUnsupervisedBuffer \<Rightarrow> heap \<times> SupervisedUnsupervisedBuffer" where
  "su_reset_on_drift fsub next_active_state_id drift_timestep hs =
     (case hs of (h, s) \<Rightarrow>
        (let valid_previous_observations =
               (if keep_active_window_on_reset s then su_window_size s else 0);
             unsupervised_drift_timestep =
               (if drift_timestep = - 1
                then fsub (fst (get_unsupervised_timestamps fsub s)) (of_int valid_previous_observations)
                else drift_timestep);
             remaining_unsupervised =
               py_int (fsub (snd (get_unsupervised_timestamps fsub s)) unsupervised_drift_timestep);
             s1 = s\<lparr>stable_unsupervised :=
                      (if 0 < remaining_unsupervised
                       then slice_last remaining_unsupervised (stable_unsupervised s) else [])\<rparr>;
             supervised_drift_timestep =
               (if drift_timestep = - 1
                then fsub (fst (get_supervised_timestamps fsub s1)) (of_int valid_previous_observations)
                else drift_timestep);
             remaining_supervised =
               py_int (fsub (snd (get_supervised_timestamps fsub s1)) supervised_drift_timestep);
             s2 = s1\<lparr>stable_supervised :=
                      (if 0 < remaining_supervised
                       then slice_last remaining_supervised (stable_supervised s1) else [])\<rparr>
         in (case reset_on_drift next_active_state_id unsupervised_drift_timestep
                    (h, unsupervised_buffer s2) of
               (h1, ub) \<Rightarrow>
                 (case reset_on_drift next_active_state_id supervised_drift_timestep
                         (h1, supervised_buffer s2) of
                    (h2, sb) \<Rightarrow> (h2, s2\<lparr>unsupervised_buffer := ub, supervised_buffer := sb\<rparr>)))))"

datatype su_call =
    Buffer_unsupervised features int real real
  | Buffer_supervised features ClfTarget int real real
  | Collect_stable_unsupervised
  | Collect_stable_supervised
  | Su_reset_on_drift int real

fun su_step ::
  "(real \<Rightarrow> real \<Rightarrow> real) \<Rightarrow> su_call \<Rightarrow> heap \<times> SupervisedUnsupervisedBuffer \<Rightarrow> heap \<times> SupervisedUnsupervisedBuffer" where
  "su_step fsub (Buffer_unsupervised x i cur w) hs = snd (buffer_unsupervised fsub x i cur w hs)"
| "su_step fsub (Buffer_supervised x y i cur w) hs = snd (buffer_supervised fsub x y i cur w hs)"
| "su_step fsub Collect_stable_unsupervised hs = snd (collect_stable_unsupervised fsub hs)"
| "su_step fsub Collect_stable_supervised hs = snd (collect_stable_supervised fsub hs)"
| "su_step fsub (Su_reset_on_drift i d) hs = su_reset_on_drift fsub i d hs"

fun su_run ::
  "(real \<Rightarrow> real \<Rightarrow> real) \<Rightarrow> su_call list \<Rightarrow> heap \<times> SupervisedUnsupervisedBuffer \<Rightarrow> heap \<times> SupervisedUnsupervisedBuffer" where
  "su_run fsub [] hs = hs"
| "su_run fsub (c # cs) hs = su_run fsub cs (su_step fsub c hs)"

section \<open>Invariants of an ObservationBuffer\<close>

text \<open>
  The references an \<open>ObservationBuffer\<close> holds, and the invariant its calls keep when the
  observations arrive with non-decreasing \<open>seen_at\<close>: the stable window followed by the
  buffer is sorted by \<open>seen_at\<close>, so is the active window, both windows respect their
  \<open>maxlen\<close>, and the active window is a suffix of the buffer, or the buffer preceded by a
  suffix of the stable window.
\<close>

definition windows_ok :: "(ref \<Rightarrow> real) \<Rightarrow> nat \<Rightarrow> ref list \<Rightarrow> ref list \<Rightarrow> ref list \<Rightarrow> bool" where
  "windows_ok f m b a st \<longleftrightarrow>
     sorted (map f (st @ b)) \<and> sorted (map f a) \<and> length a \<le> m \<and> length st \<le> m \<and>
     ((\<exists>p. a = p @ b \<and> suffix p st) \<or> suffix a b)"

definition refs_of :: "ObservationBuffer \<Rightarrow> ref set" where
  "refs_of s = set (buffer s) \<union> set (active_window s) \<union> set (stable_window s)"

definition buffer_inv :: "heap \<Rightarrow> ObservationBuffer \<Rightarrow> bool" where
  "buffer_inv h s \<longleftrightarrow>
     refs_of s \<subseteq> {..<length h} \<and>
     windows_ok (\<lambda>r. seen_at (h ! r)) (nat (window_size s))
       (buffer s) (active_window s) (stable_window s)"

section \<open>Example values\<close>

text \<open>Concrete values used to evaluate the definitions.\<close>

definition example_observation :: Observation where
  "example_observation = Observation_init [] None 0 1 1"

definition example_detector :: DriftDetector where
  "example_detector = [''estimation'' \<mapsto> 1 / 4]"

definition example_calls :: "ob_call list" where
  "example_calls =
     [Buffer_data [] None 1 0 0 1, Buffer_data [] None 2 0 0 1, Buffer_data [] None 3 1 0 1]"

definition empty_buffer :: "int \<Rightarrow> ObservationBuffer" where
  "empty_buffer w = \<lparr> window_size = w, buffer = [], active_window = [], stable_window = [] \<rparr>"

definition drift_calls :: "ob_call list" where
  "drift_calls =
     [Buffer_data [] None 1 0 0 1, Buffer_data [] None 2 1 0 1, Buffer_data [] None 3 2 0 1]"

definition example_su :: SupervisedUnsupervisedBuffer where
  "example_su =
     \<lparr> su_window_size = 2, unsupervised_buffer_timeout = 1, supervised_buffer_timeout = 1,
       release_strategy = ''supervised'', keep_active_window_on_reset = False,
       supervised_active_timestamp = 0, unsupervised_active_timestamp = 0,
       unsupervised_buffer = empty_buffer 2, supervised_buffer = empty_buffer 2,
       stable_unsupervised = [], stable_supervised = [] \<rparr>"

text \<open>
  The store and the buffer after one unsupervised and two supervised observations, all with
  \<open>current_timestamp = -1.0\<close>, on \<open>example_su\<close>. The clocks and timeouts are the
  integers 0, 1 and 2 there, on which the float subtraction is the exact difference.
\<close>

definition su_after_calls :: "heap \<times> SupervisedUnsupervisedBuffer" where
  "su_after_calls =
     su_run (-) [Buffer_unsupervised [] 0 (- 1) 1,
             Buffer_supervised [] (Int_target 0) 0 (- 1) 1,
             Buffer_supervised [] (Int_target 0) 0 (- 1) 1] ([], example_su)"

section \<open>Properties of Observation\<close>

lemma add_prediction_calls_dom:
  "dom (predictions (add_prediction_calls cs ob)) = dom (predictions ob) \<union> snd ` set cs"
proof (induction cs arbitrary: ob)
  case Nil
  then show ?case by simp
next
  case (Cons c cs)
  obtain p k where c: "c = (p, k)" by (cases c)
  have "dom (predictions (add_prediction p k ob)) = insert k (dom (predictions ob))"
    by (simp add: add_prediction_def)
  then show ?case unfolding c by (simp add: Cons.IH)
qed

lemma add_prediction_calls_other:
  "k \<notin> snd ` set cs \<Longrightarrow> predictions (add_prediction_calls cs ob) k = predictions ob k"
  by (induction cs arbitrary: ob) (auto simp: add_prediction_def)

text \<open>
  C5 (as amended). \<open>active_state_relevance\<close> is not write-once: every call of
  \<open>add_active_state_relevance\<close> with the observation's own \<open>active_state_id\<close> succeeds and
  stores its argument, also when a value was stored before, so after two successful calls
  the stored value is that of the second. A call with another id raises a \<open>ValueError\<close>
  and leaves the observation, and so the stored value, as it was, also after a successful
  call.
\<close>

theorem active_state_relevance_overwritten:
  "(i = active_state_id ob \<longrightarrow>
      fst (add_active_state_relevance v1 i ob) = Inr () \<and>
      fst (add_active_state_relevance v2 i (snd (add_active_state_relevance v1 i ob))) = Inr () \<and>
      active_state_relevance (snd (add_active_state_relevance v1 i ob)) = Some v1 \<and>
      active_state_relevance
        (snd (add_active_state_relevance v2 i (snd (add_active_state_relevance v1 i ob))))
        = Some v2) \<and>
   (j \<noteq> active_state_id ob \<longrightarrow>
      (\<exists>msg. fst (add_active_state_relevance v2 j ob) = Inl (ValueError msg)) \<and>
      snd (add_active_state_relevance v2 j ob) = ob \<and>
      active_state_relevance (snd (add_active_state_relevance v2 j ob))
        = active_state_relevance ob) \<and>
   (i = active_state_id ob \<and> j \<noteq> active_state_id ob \<longrightarrow>
      (\<exists>msg. fst (add_active_state_relevance v2 j (snd (add_active_state_relevance v1 i ob)))
               = Inl (ValueError msg)) \<and>
      active_state_relevance
        (snd (add_active_state_relevance v2 j (snd (add_active_state_relevance v1 i ob))))
        = Some v1)"
  by (simp add: add_active_state_relevance_def)

theorem active_state_relevance_overwritten_witness:
  "active_state_id example_observation = 1 \<and>
   (2::int) \<noteq> active_state_id example_observation \<and>
   fst (add_active_state_relevance 2 1 (snd (add_active_state_relevance 1 1 example_observation)))
     = Inr () \<and>
   active_state_relevance
     (snd (add_active_state_relevance 2 1 (snd (add_active_state_relevance 1 1 example_observation))))
     = Some 2 \<and>
   snd (add_active_state_relevance 2 2 example_observation) = example_observation \<and>
   active_state_relevance (snd (add_active_state_relevance 2 2 example_observation)) = None \<and>
   active_state_relevance
     (snd (add_active_state_relevance 2 2 (snd (add_active_state_relevance 1 1 example_observation))))
     = Some 1"
  using active_state_relevance_overwritten [of 1 example_observation 1 2 2]
  by (simp add: example_observation_def Observation_init_def)

text \<open>
  C5 (as stated) fails: on a fresh observation of state 1, a first successful call stores
  1 and a later call with the same id stores 2.
\<close>

theorem active_state_relevance_set_twice:
  "fst (add_active_state_relevance 1 1 example_observation) = Inr () \<and>
   active_state_relevance (snd (add_active_state_relevance 1 1 example_observation)) = Some 1 \<and>
   active_state_relevance
     (snd (add_active_state_relevance 2 1 (snd (add_active_state_relevance 1 1 example_observation))))
     \<noteq> active_state_relevance (snd (add_active_state_relevance 1 1 example_observation))"
  by (simp add: add_active_state_relevance_def example_observation_def Observation_init_def)

text \<open>
  C7 (as amended). Over any sequence of \<open>add_prediction\<close> calls, a state id that has an
  entry keeps one, and the label stored for it is unchanged as long as no call in the
  sequence names that state id; a call that names it replaces the label by its own.
\<close>

theorem predictions_kept_or_replaced:
  "(k \<in> dom (predictions ob) \<longrightarrow> k \<in> dom (predictions (add_prediction_calls cs ob))) \<and>
   (k \<notin> snd ` set cs \<longrightarrow> predictions (add_prediction_calls cs ob) k = predictions ob k) \<and>
   predictions (add_prediction p k (add_prediction_calls cs ob)) k = Some p"
  by (simp add: add_prediction_calls_dom add_prediction_calls_other add_prediction_def)

theorem predictions_kept_or_replaced_witness:
  "predictions (add_prediction (Int_target 7) 0 example_observation) 0 = Some (Int_target 7) \<and>
   predictions
     (add_prediction_calls [(Int_target 8, 1), (Int_target 9, 2)]
        (add_prediction (Int_target 7) 0 example_observation)) 0 = Some (Int_target 7) \<and>
   predictions
     (add_prediction (Int_target 5) 0
        (add_prediction_calls [(Int_target 8, 1), (Int_target 9, 2)]
           (add_prediction (Int_target 7) 0 example_observation))) 0 = Some (Int_target 5)"
  using predictions_kept_or_replaced
    [of 0 "add_prediction (Int_target 7) 0 example_observation"
        "[(Int_target 8, 1), (Int_target 9, 2)]" "Int_target 5"]
  by (simp add: add_prediction_def)

text \<open>
  C7 (as stated) fails: a second call for state id 0 changes the label stored by the first.
\<close>

theorem predictions_label_changed:
  "predictions (add_prediction (Int_target 1) 0 example_observation) 0 = Some (Int_target 1) \<and>
   predictions
     (add_prediction (Int_target 2) 0 (add_prediction (Int_target 1) 0 example_observation)) 0
     = Some (Int_target 2) \<and>
   predictions
     (add_prediction (Int_target 2) 0 (add_prediction (Int_target 1) 0 example_observation)) 0
     \<noteq> predictions (add_prediction (Int_target 1) 0 example_observation) 0"
  by (simp add: add_prediction_def)

text \<open>
  C8. A call of \<open>add_active_state_relevance\<close> with an id other than the observation's
  \<open>active_state_id\<close> raises a \<open>ValueError\<close> and leaves the observation as it was, so a
  relevance that was unset stays unset; a call with the observation's id succeeds and
  stores the value.
\<close>

theorem add_active_state_relevance_guard:
  "(wrong_id \<noteq> active_state_id ob \<longrightarrow>
      (\<exists>msg. fst (add_active_state_relevance v wrong_id ob) = Inl (ValueError msg)) \<and>
      snd (add_active_state_relevance v wrong_id ob) = ob \<and>
      (active_state_relevance ob = None \<longrightarrow>
         active_state_relevance (snd (add_active_state_relevance v wrong_id ob)) = None)) \<and>
   (i = active_state_id ob \<longrightarrow>
      fst (add_active_state_relevance v i ob) = Inr () \<and>
      snd (add_active_state_relevance v i ob) = ob\<lparr>active_state_relevance := Some v\<rparr> \<and>
      active_state_relevance (snd (add_active_state_relevance v i ob)) = Some v)"
  by (simp add: add_active_state_relevance_def)

theorem add_active_state_relevance_guard_witness:
  "active_state_id example_observation = 1 \<and>
   (2::int) \<noteq> active_state_id example_observation \<and>
   active_state_relevance example_observation = None \<and>
   fst (add_active_state_relevance (1 / 2) 2 example_observation)
     = Inl (ValueError ''Attempting to set active state relevance for wrong state 2.'') \<and>
   snd (add_active_state_relevance (1 / 2) 2 example_observation) = example_observation \<and>
   active_state_relevance (snd (add_active_state_relevance (1 / 2) 2 example_observation)) = None \<and>
   fst (add_active_state_relevance (1 / 2) 1 example_observation) = Inr () \<and>
   active_state_relevance (snd (add_active_state_relevance (1 / 2) 1 example_observation))
     = Some (1 / 2)"
proof -
  have msg: "string_of_int 2 = ''2''"
    by code_simp
  show ?thesis
    using add_active_state_relevance_guard [of 2 example_observation "1 / 2" 1]
    by (simp add: add_active_state_relevance_def example_observation_def Observation_init_def msg)
qed

text \<open>
  C9. \<open>get_drift_detector_estimate\<close> raises exactly when the detector has no attribute
  \<open>estimation\<close>, the error is a \<open>ValueError\<close>, and a detector that has the attribute
  gets its value back.
\<close>

theorem get_drift_detector_estimate_iff:
  "((\<exists>e. get_drift_detector_estimate detector = Inl e) \<longleftrightarrow> \<not> hasattr detector ''estimation'') \<and>
   (\<forall>e. get_drift_detector_estimate detector = Inl e \<longrightarrow> (\<exists>msg. e = ValueError msg)) \<and>
   (\<forall>v. detector ''estimation'' = Some v \<longrightarrow> get_drift_detector_estimate detector = Inr v)"
  by (auto simp: get_drift_detector_estimate_def hasattr_def split: option.splits)

theorem get_drift_detector_estimate_iff_witness:
  "hasattr example_detector ''estimation'' \<and>
   example_detector ''estimation'' = Some (1 / 4) \<and>
   get_drift_detector_estimate example_detector = Inr (1 / 4) \<and>
   \<not> hasattr Map.empty ''estimation'' \<and>
   get_drift_detector_estimate Map.empty
     = Inl (ValueError ''Cannot get estimate from detector. Either use a different detector or use the 'any' mode. '')"
  using get_drift_detector_estimate_iff [of example_detector]
    get_drift_detector_estimate_iff [of Map.empty]
  by (simp add: get_drift_detector_estimate_def hasattr_def example_detector_def)

section \<open>The loops of ObservationBuffer and the store\<close>

lemma release_loop_eq:
  "release_loop h t m b st rel =
     (rel @ takeWhile (\<lambda>r. seen_at (h ! r) \<le> t) b,
      dropWhile (\<lambda>r. seen_at (h ! r) \<le> t) b,
      foldl (deque_append m) st (takeWhile (\<lambda>r. seen_at (h ! r) \<le> t) b))"
  by (induction b arbitrary: st rel) simp_all

lemma popleft_while_eq:
  "popleft_while h d rs = dropWhile (\<lambda>r. seen_at (h ! r) \<le> d) rs"
  by (induction rs) simp_all

lemma length_relabel [simp]: "length (relabel i rs h) = length h"
  by (induction rs arbitrary: h) simp_all

lemma relabel_nth:
  "relabel i rs h ! r =
     (if r \<in> set rs \<and> r < length h then (h ! r)\<lparr>active_state_id := i\<rparr> else h ! r)"
proof (induction rs arbitrary: h)
  case Nil
  then show ?case by simp
next
  case (Cons a rs)
  show ?case
    by (cases "a < length h") (auto simp: Cons.IH nth_list_update list_update_beyond)
qed

lemma map_seen_at_relabel [simp]: "map seen_at (relabel i rs h) = map seen_at h"
  by (rule nth_equalityI) (simp_all add: relabel_nth)

lemma map_is_stable_relabel [simp]: "map is_stable (relabel i rs h) = map is_stable h"
  by (rule nth_equalityI) (simp_all add: relabel_nth)

lemma release_buffer_eq:
  "release_buffer t (h, s) =
     (takeWhile (\<lambda>r. seen_at (h ! r) \<le> t) (buffer s), h,
      s\<lparr>buffer := dropWhile (\<lambda>r. seen_at (h ! r) \<le> t) (buffer s),
        stable_window := foldl (deque_append (nat (window_size s))) (stable_window s)
                            (takeWhile (\<lambda>r. seen_at (h ! r) \<le> t) (buffer s))\<rparr>)"
  by (simp add: release_buffer_def release_loop_eq)

lemma add_observation_eq:
  "add_observation r t (h, s) =
     release_buffer t
       (h, s\<lparr>active_window := deque_append (nat (window_size s)) (active_window s) r,
             buffer := buffer s @ [r]\<rparr>)"
  by (simp add: add_observation_def)

lemma buffer_data_eq:
  "buffer_data x y cur t i w (h, s) =
     add_observation (length h) t (h @ [Observation_init x y cur i w], s)"
  by (simp add: buffer_data_def alloc_def)

lemma reset_on_drift_eq:
  "reset_on_drift i d (h, s) =
     (relabel i (popleft_while h d (buffer s)) (relabel i (popleft_while h d (stable_window s)) h),
      s\<lparr>buffer := popleft_while h d (buffer s),
        active_window := popleft_while h d (active_window s),
        stable_window := popleft_while h d (stable_window s)\<rparr>)"
  by (simp add: reset_on_drift_def Let_def)

text \<open>What one call does to the store.\<close>

lemma ob_step_store:
  assumes "ob_step c (h, s) = (out, h1, s1)"
  shows "\<exists>obs :: Observation list. length h1 = length h + length obs \<and>
           map seen_at h1 = map seen_at h @ map seen_at obs \<and>
           map is_stable h1 = map is_stable h @ map (\<lambda>_. False) obs"
proof (cases c)
  case (Buffer_data x y cur st i w)
  with assms have "h1 = h @ [Observation_init x y cur i w]"
    by (simp add: buffer_data_eq add_observation_eq release_buffer_eq)
  then show ?thesis
    by - (rule exI [of _ "[Observation_init x y cur i w]"], simp add: Observation_init_def)
next
  case (Add_observation r st)
  with assms have "h1 = h" by (simp add: add_observation_eq release_buffer_eq)
  then show ?thesis by - (rule exI [of _ "[]"], simp)
next
  case (Release_buffer st)
  with assms have "h1 = h" by (simp add: release_buffer_eq)
  then show ?thesis by - (rule exI [of _ "[]"], simp)
next
  case (Reset_on_drift i d)
  with assms have "map seen_at h1 = map seen_at h" "map is_stable h1 = map is_stable h"
    "length h1 = length h"
    by (auto simp: reset_on_drift_eq)
  then show ?thesis by - (rule exI [of _ "[]"], simp)
qed

lemma ob_run_store:
  "ob_run cs (h, s) = (outs, h', s') \<Longrightarrow>
     \<exists>obs :: Observation list. length h' = length h + length obs \<and>
           map seen_at h' = map seen_at h @ map seen_at obs \<and>
           map is_stable h' = map is_stable h @ map (\<lambda>_. False) obs"
proof (induction cs arbitrary: h s outs)
  case Nil
  then show ?case by - (rule exI [of _ "[]"], simp)
next
  case (Cons c cs)
  obtain out h1 s1 where step: "ob_step c (h, s) = (out, h1, s1)"
    by (metis prod_cases3)
  obtain outs1 where run: "ob_run cs (h1, s1) = (outs1, h', s')"
    using Cons.prems step by (auto split: prod.splits)
  from ob_step_store [OF step] obtain o1 :: "Observation list" where o1:
    "length h1 = length h + length o1" "map seen_at h1 = map seen_at h @ map seen_at o1"
    "map is_stable h1 = map is_stable h @ map (\<lambda>_. False) o1" by blast
  from Cons.IH [OF run] obtain o2 :: "Observation list" where o2:
    "length h' = length h1 + length o2" "map seen_at h' = map seen_at h1 @ map seen_at o2"
    "map is_stable h' = map is_stable h1 @ map (\<lambda>_. False) o2" by blast
  show ?case
    by (intro exI [of _ "o1 @ o2"]) (simp add: o1 o2)
qed

lemma ob_run_seen_at:
  assumes "ob_run cs (h, s) = (outs, h', s')" and "r < length h"
  shows "seen_at (h' ! r) = seen_at (h ! r)" and "length h \<le> length h'"
proof -
  from ob_run_store [OF assms(1)] obtain obs :: "Observation list" where
    l: "length h' = length h + length obs" and
    m: "map seen_at h' = map seen_at h @ map seen_at obs" by blast
  show "length h \<le> length h'" using l by simp
  have "seen_at (h' ! r) = map seen_at h' ! r" using assms(2) l by simp
  also have "\<dots> = map seen_at h ! r" using assms(2) by (simp add: m nth_append)
  finally show "seen_at (h' ! r) = seen_at (h ! r)" using assms(2) by simp
qed

lemma ob_step_window_size:
  "ob_step c (h, s) = (out, h1, s1) \<Longrightarrow> window_size s1 = window_size s"
  by (cases c)
    (auto simp: buffer_data_eq add_observation_eq release_buffer_eq reset_on_drift_eq)

lemma ob_run_window_size:
  "ob_run cs (h, s) = (outs, h', s') \<Longrightarrow> window_size s' = window_size s"
proof (induction cs arbitrary: h s outs)
  case Nil
  then show ?case by simp
next
  case (Cons c cs)
  obtain out h1 s1 where step: "ob_step c (h, s) = (out, h1, s1)"
    by (metis prod_cases3)
  obtain outs1 where run: "ob_run cs (h1, s1) = (outs1, h', s')"
    using Cons.prems step by (auto split: prod.splits)
  show ?case using Cons.IH [OF run] ob_step_window_size [OF step] by simp
qed

lemma release_buffer_released:
  assumes "release_buffer t (h, s) = (out, h1, s1)"
  shows "out @ buffer s1 = buffer s" and "h1 = h"
    and "\<forall>r\<in>set out. seen_at (h ! r) \<le> t"
  using assms by (auto simp: release_buffer_eq dest: set_takeWhileD)

text \<open>A call other than \<open>reset_on_drift\<close>: what it returns and what it leaves in the buffer.\<close>

lemma ob_step_released:
  assumes step: "ob_step c (h, s) = (out, h1, s1)"
    and c: "no_reset [c]" "valid_calls [c] (length h)"
    and refs: "set (buffer s) \<subseteq> {..<length h}"
  shows "out @ buffer s1 = buffer s @ inserted [c] (length h)"
    and "set (buffer s1) \<subseteq> {..<length h1}"
    and "set out \<subseteq> {..<length h1}"
    and "\<forall>r\<in>set out. \<exists>t\<in>set (thresholds [c]). seen_at (h1 ! r) \<le> t"
proof -
  have *: "out @ buffer s1 = buffer s @ inserted [c] (length h) \<and>
        set (buffer s @ inserted [c] (length h)) \<subseteq> {..<length h1} \<and>
        (\<forall>r\<in>set out. \<exists>t\<in>set (thresholds [c]). seen_at (h1 ! r) \<le> t)"
  proof (cases c)
    case (Buffer_data x y cur st i w)
    let ?h = "h @ [Observation_init x y cur i w]"
    let ?s = "s\<lparr>active_window := deque_append (nat (window_size s)) (active_window s) (length h),
               buffer := buffer s @ [length h]\<rparr>"
    from step Buffer_data have "release_buffer st (?h, ?s) = (out, h1, s1)"
      by (simp add: buffer_data_eq add_observation_eq)
    from release_buffer_released [OF this] refs Buffer_data show ?thesis
      by (auto simp: less_Suc_eq)
  next
    case (Add_observation r st)
    let ?s = "s\<lparr>active_window := deque_append (nat (window_size s)) (active_window s) r,
               buffer := buffer s @ [r]\<rparr>"
    from step Add_observation have "release_buffer st (h, ?s) = (out, h1, s1)"
      by (simp add: add_observation_eq)
    from release_buffer_released [OF this] refs c Add_observation show ?thesis
      by auto
  next
    case (Release_buffer st)
    with step have "release_buffer st (h, s) = (out, h1, s1)" by simp
    from release_buffer_released [OF this] refs Release_buffer show ?thesis
      by auto
  next
    case (Reset_on_drift i d)
    with c show ?thesis by simp
  qed
  then have "set (out @ buffer s1) \<subseteq> {..<length h1}" by metis
  then have **: "set out \<subseteq> {..<length h1}" "set (buffer s1) \<subseteq> {..<length h1}" by simp_all
  show "out @ buffer s1 = buffer s @ inserted [c] (length h)" using * by blast
  show "set (buffer s1) \<subseteq> {..<length h1}" by (rule **)
  show "set out \<subseteq> {..<length h1}" by (rule **)
  show "\<forall>r\<in>set out. \<exists>t\<in>set (thresholds [c]). seen_at (h1 ! r) \<le> t" using * by blast
qed

lemma calls_Cons:
  assumes "ob_step c (h, s) = (out, h1, s1)"
  shows "inserted (c # cs) (length h) = inserted [c] (length h) @ inserted cs (length h1)"
    and "valid_calls (c # cs) (length h) = (valid_calls [c] (length h) \<and> valid_calls cs (length h1))"
    and "thresholds (c # cs) = thresholds [c] @ thresholds cs"
    and "no_reset (c # cs) = (no_reset [c] \<and> no_reset cs)"
  using assms
  by (cases c; auto simp: buffer_data_eq add_observation_eq release_buffer_eq reset_on_drift_eq)+

lemma ob_run_released:
  assumes "ob_run cs (h, s) = (outs, h', s')"
    and "no_reset cs" and "valid_calls cs (length h)"
    and "set (buffer s) \<subseteq> {..<length h}"
  shows "outs @ buffer s' = buffer s @ inserted cs (length h) \<and>
         set (buffer s') \<subseteq> {..<length h'} \<and>
         (\<forall>r\<in>set outs. \<exists>t\<in>set (thresholds cs). seen_at (h' ! r) \<le> t)"
  using assms
proof (induction cs arbitrary: h s outs)
  case Nil
  then show ?case by simp
next
  case (Cons c cs)
  obtain out h1 s1 where step: "ob_step c (h, s) = (out, h1, s1)"
    by (metis prod_cases3)
  obtain outs1 where run: "ob_run cs (h1, s1) = (outs1, h', s')" and outs: "outs = out @ outs1"
    using Cons.prems(1) step by (auto split: prod.splits)
  note cc = calls_Cons [OF step, of cs]
  have c: "no_reset [c]" "valid_calls [c] (length h)" "no_reset cs" "valid_calls cs (length h1)"
    using Cons.prems(2,3) cc by simp_all
  note st = ob_step_released [OF step c(1,2) Cons.prems(4)]
  from Cons.IH [OF run c(3,4) st(2)]
  have ih: "outs1 @ buffer s' = buffer s1 @ inserted cs (length h1)"
    "set (buffer s') \<subseteq> {..<length h'}"
    "\<forall>r\<in>set outs1. \<exists>t\<in>set (thresholds cs). seen_at (h' ! r) \<le> t"
    by simp_all
  have "outs @ buffer s' = out @ buffer s1 @ inserted cs (length h1)"
    using ih(1) outs by simp
  also have "\<dots> = buffer s @ inserted (c # cs) (length h)"
    using st(1) cc(1) by simp
  finally have one: "outs @ buffer s' = buffer s @ inserted (c # cs) (length h)" .
  have "\<exists>t\<in>set (thresholds (c # cs)). seen_at (h' ! r) \<le> t" if r: "r \<in> set out" for r
  proof -
    from r st(3) have "r < length h1" by auto
    then have "seen_at (h' ! r) = seen_at (h1 ! r)" using ob_run_seen_at(1) [OF run] by simp
    with st(4) r show ?thesis unfolding cc(3) by auto
  qed
  with ih(3) have three: "\<forall>r\<in>set outs. \<exists>t\<in>set (thresholds (c # cs)). seen_at (h' ! r) \<le> t"
    unfolding outs cc(3) by auto
  show ?case using one ih(2) three by simp
qed

lemma takeWhile_all: "\<forall>x\<in>set xs. P x \<Longrightarrow> takeWhile P (xs @ ys) = xs @ takeWhile P ys"
  by (induction xs) simp_all

lemma takeWhile_sorted_filter:
  "sorted (map f xs) \<Longrightarrow> takeWhile (\<lambda>x. f x \<le> (t::real)) xs = filter (\<lambda>x. f x \<le> t) xs"
proof (induction xs)
  case Nil
  then show ?case by simp
next
  case (Cons a xs)
  show ?case
  proof (cases "f a \<le> t")
    case True
    with Cons show ?thesis by simp
  next
    case False
    with Cons.prems have "\<forall>x\<in>set xs. \<not> f x \<le> t" by auto
    with False show ?thesis by (simp add: filter_empty_conv)
  qed
qed

lemma dropWhile_hd: "dropWhile P xs \<noteq> [] \<Longrightarrow> \<not> P (hd (dropWhile P xs))"
  by (metis hd_dropWhile)

section \<open>Preservation of the invariant\<close>

lemma set_deque_append: "set (deque_append m d v) \<subseteq> insert v (set d)"
  by (cases d) (auto simp: deque_append_def)

lemma length_deque_append: "length d \<le> m \<Longrightarrow> length (deque_append m d v) \<le> m"
  by (auto simp: deque_append_def)

lemma suffix_tl_shorter: "suffix xs ys \<Longrightarrow> length xs < length ys \<Longrightarrow> suffix xs (tl ys)"
  by (cases ys) (auto simp: suffix_Cons)

lemma sorted_map_tl: "sorted (map f xs) \<Longrightarrow> sorted (map f (tl xs))"
  by (cases xs) simp_all

lemma sorted_map_snoc:
  "sorted (map f xs) \<Longrightarrow> \<forall>x\<in>set xs. f x \<le> (f v :: real) \<Longrightarrow> sorted (map f (xs @ [v]))"
  by (simp add: sorted_append)

lemma windows_ok_push:
  assumes ok: "windows_ok f m b a st"
    and le: "\<forall>r\<in>set b \<union> set a \<union> set st. f r \<le> f v"
  shows "windows_ok f m (b @ [v]) (deque_append m a v) st"
proof -
  from ok have sb: "sorted (map f (st @ b))" and sa: "sorted (map f a)"
    and la: "length a \<le> m" and ls: "length st \<le> m"
    and j: "(\<exists>p. a = p @ b \<and> suffix p st) \<or> suffix a b"
    by (simp_all add: windows_ok_def)
  have 1: "sorted (map f (st @ b @ [v]))"
    using sorted_map_snoc [of f "st @ b" v] sb le by auto
  have sav: "sorted (map f (a @ [v]))"
    using sorted_map_snoc [OF sa] le by auto
  have 2: "sorted (map f (deque_append m a v))"
    using sav sorted_map_tl [OF sav] by (simp add: deque_append_def)
  have 3: "length (deque_append m a v) \<le> m"
    by (rule length_deque_append [OF la])
  have j0: "(\<exists>p. a @ [v] = p @ b @ [v] \<and> suffix p st) \<or> suffix (a @ [v]) (b @ [v])"
    using j by auto
  have 4: "(\<exists>p. deque_append m a v = p @ b @ [v] \<and> suffix p st)
           \<or> suffix (deque_append m a v) (b @ [v])"
  proof (cases "m < length (a @ [v])")
    case False
    then show ?thesis using j0 by (simp add: deque_append_def)
  next
    case True
    then have d: "deque_append m a v = tl (a @ [v])" by (simp add: deque_append_def)
    from j0 show ?thesis
    proof
      assume "\<exists>p. a @ [v] = p @ b @ [v] \<and> suffix p st"
      then obtain p where p: "a @ [v] = p @ b @ [v]" "suffix p st" by blast
      show ?thesis
      proof (cases p)
        case Nil
        with p have "suffix (tl (a @ [v])) (b @ [v])"
          by (metis append_Nil suffix_tl)
        then show ?thesis by (simp add: d)
      next
        case (Cons x xs)
        with p have "tl (a @ [v]) = xs @ b @ [v]" "suffix xs st"
          by (auto dest: suffix_ConsD)
        then show ?thesis unfolding d by blast
      qed
    next
      assume "suffix (a @ [v]) (b @ [v])"
      then have "suffix (tl (a @ [v])) (b @ [v])"
        by (meson suffix_order.trans suffix_tl)
      then show ?thesis by (simp add: d)
    qed
  qed
  show ?thesis
    unfolding windows_ok_def using 1 2 3 ls 4 by simp
qed

lemma windows_ok_release_one:
  assumes ok: "windows_ok f m (v # b) a st"
  shows "windows_ok f m b a (deque_append m st v)"
proof -
  from ok have sb: "sorted (map f (st @ v # b))" and sa: "sorted (map f a)"
    and la: "length a \<le> m" and ls: "length st \<le> m"
    and j: "(\<exists>p. a = p @ v # b \<and> suffix p st) \<or> suffix a (v # b)"
    by (simp_all add: windows_ok_def)
  have 1: "sorted (map f (deque_append m st v @ b))"
  proof (cases "m < length (st @ [v])")
    case False
    then show ?thesis using sb by (simp add: deque_append_def)
  next
    case True
    have "tl (st @ [v]) @ b = tl (st @ v # b)" by (cases st) simp_all
    then show ?thesis using True sorted_map_tl [OF sb] by (simp add: deque_append_def)
  qed
  have 4: "length (deque_append m st v) \<le> m"
    by (rule length_deque_append [OF ls])
  have 5: "(\<exists>p. a = p @ b \<and> suffix p (deque_append m st v)) \<or> suffix a b"
    using j
  proof
    assume "\<exists>p. a = p @ v # b \<and> suffix p st"
    then obtain p where p: "a = p @ v # b" "suffix p st" by blast
    have a: "a = (p @ [v]) @ b" using p by simp
    have s: "suffix (p @ [v]) (st @ [v])" using p by simp
    have "suffix (p @ [v]) (deque_append m st v)"
    proof (cases "m < length (st @ [v])")
      case False
      then show ?thesis using s by (simp add: deque_append_def)
    next
      case True
      have "length (p @ [v]) \<le> length a" using p by simp
      with la True have "length (p @ [v]) < length (st @ [v])" by simp
      from suffix_tl_shorter [OF s this] True show ?thesis by (simp add: deque_append_def)
    qed
    with a show ?thesis by blast
  next
    assume "suffix a (v # b)"
    then consider "a = v # b" | "suffix a b" by (auto simp: suffix_Cons)
    then show ?thesis
    proof cases
      case 1
      then have a: "a = [v] @ b" by simp
      have m: "0 < m" using la 1 by simp
      have "suffix [v] (deque_append m st v)"
      proof (cases "m < length (st @ [v])")
        case False
        then show ?thesis by (simp add: deque_append_def)
      next
        case True
        have "length [v] < length (st @ [v])" using True m by (cases st) simp_all
        from suffix_tl_shorter [OF _ this] True show ?thesis
          by (simp add: deque_append_def)
      qed
      with a show ?thesis by blast
    next
      case 2
      then show ?thesis by simp
    qed
  qed
  show ?thesis
    unfolding windows_ok_def using 1 sa la 4 5 by simp
qed

lemma windows_ok_release:
  "windows_ok f m b a st \<Longrightarrow>
     windows_ok f m (dropWhile P b) a (foldl (deque_append m) st (takeWhile P b))"
proof (induction b arbitrary: st)
  case Nil
  then show ?case by simp
next
  case (Cons v b)
  show ?case
  proof (cases "P v")
    case True
    from Cons.IH [OF windows_ok_release_one [OF Cons.prems]] True show ?thesis by simp
  next
    case False
    with Cons.prems show ?thesis by simp
  qed
qed

lemma dropWhile_sorted_filter:
  "sorted (map f xs) \<Longrightarrow>
     dropWhile (\<lambda>x. f x \<le> (d::real)) xs = filter (\<lambda>x. \<not> f x \<le> d) xs"
proof (induction xs)
  case Nil
  then show ?case by simp
next
  case (Cons a xs)
  show ?case
  proof (cases "f a \<le> d")
    case True
    with Cons show ?thesis by simp
  next
    case False
    with Cons.prems have "\<forall>x\<in>set xs. \<not> f x \<le> d" by auto
    then have "filter (\<lambda>x. \<not> f x \<le> d) xs = xs" by (simp add: filter_id_conv)
    with False show ?thesis by simp
  qed
qed

lemma suffix_filter: "suffix xs ys \<Longrightarrow> suffix (filter P xs) (filter P ys)"
  by (auto simp: suffix_def)

lemma windows_ok_prune:
  assumes ok: "windows_ok f m b a st"
  shows "windows_ok f m (dropWhile (\<lambda>r. f r \<le> d) b) (dropWhile (\<lambda>r. f r \<le> d) a)
           (dropWhile (\<lambda>r. f r \<le> d) st)"
proof -
  let ?Q = "\<lambda>r. \<not> f r \<le> d"
  from ok have sb: "sorted (map f (st @ b))" and sa: "sorted (map f a)"
    and la: "length a \<le> m" and ls: "length st \<le> m"
    and j: "(\<exists>p. a = p @ b \<and> suffix p st) \<or> suffix a b"
    by (simp_all add: windows_ok_def)
  from sb have "sorted (map f st)" "sorted (map f b)" by (simp_all add: sorted_append)
  then have eq: "dropWhile (\<lambda>r. f r \<le> d) b = filter ?Q b" "dropWhile (\<lambda>r. f r \<le> d) a = filter ?Q a"
    "dropWhile (\<lambda>r. f r \<le> d) st = filter ?Q st"
    using sa by (simp_all add: dropWhile_sorted_filter)
  have 1: "sorted (map f (filter ?Q st @ filter ?Q b))"
    using sorted_filter [OF sb, of ?Q] by simp
  have 2: "sorted (map f (filter ?Q a))" by (rule sorted_filter [OF sa])
  have 3: "length (filter ?Q a) \<le> m" "length (filter ?Q st) \<le> m"
    using la ls by (meson le_trans length_filter_le)+
  have 4: "(\<exists>p. filter ?Q a = p @ filter ?Q b \<and> suffix p (filter ?Q st))
           \<or> suffix (filter ?Q a) (filter ?Q b)"
    using j
  proof
    assume "\<exists>p. a = p @ b \<and> suffix p st"
    then obtain p where "a = p @ b" "suffix p st" by blast
    then have "filter ?Q a = filter ?Q p @ filter ?Q b" "suffix (filter ?Q p) (filter ?Q st)"
      by (simp_all add: suffix_filter)
    then show ?thesis by blast
  next
    assume "suffix a b"
    then show ?thesis by (simp add: suffix_filter)
  qed
  show ?thesis unfolding eq windows_ok_def using 1 2 3 4 by simp
qed

lemma windows_ok_cong:
  assumes "\<forall>r\<in>set b \<union> set a \<union> set st. f r = g r"
  shows "windows_ok f m b a st = windows_ok g m b a st"
proof -
  have "map f (st @ b) = map g (st @ b)" "map f a = map g a"
    using assms by auto
  then show ?thesis by (simp only: windows_ok_def)
qed

lemma set_foldl_deque_append:
  "set (foldl (deque_append m) st xs) \<subseteq> set st \<union> set xs"
proof (induction xs arbitrary: st)
  case Nil
  then show ?case by simp
next
  case (Cons x xs)
  show ?case using Cons.IH [of "deque_append m st x"] set_deque_append [of m st x] by auto
qed

lemma buffer_inv_release:
  assumes inv: "buffer_inv h s" and rel: "release_buffer t (h, s) = (out, h1, s1)"
  shows "buffer_inv h1 s1" and "refs_of s1 \<subseteq> refs_of s"
proof -
  let ?P = "\<lambda>r. seen_at (h ! r) \<le> t"
  let ?m = "nat (window_size s)"
  from rel have h1: "h1 = h"
    and s1: "s1 = s\<lparr>buffer := dropWhile ?P (buffer s),
                    stable_window := foldl (deque_append ?m) (stable_window s)
                       (takeWhile ?P (buffer s))\<rparr>"
    by (auto simp: release_buffer_eq)
  have "set (foldl (deque_append ?m) (stable_window s) (takeWhile ?P (buffer s)))
          \<subseteq> set (stable_window s) \<union> set (buffer s)"
    using set_foldl_deque_append [of ?m "stable_window s" "takeWhile ?P (buffer s)"]
      set_takeWhileD [of _ ?P "buffer s"] by blast
  moreover have "set (dropWhile ?P (buffer s)) \<subseteq> set (buffer s)"
    by (auto dest: set_dropWhileD)
  ultimately show sub: "refs_of s1 \<subseteq> refs_of s"
    unfolding s1 refs_of_def by auto
  from inv have "windows_ok (\<lambda>r. seen_at (h ! r)) ?m (buffer s) (active_window s) (stable_window s)"
    by (simp add: buffer_inv_def)
  from windows_ok_release [OF this, of ?P] sub inv show "buffer_inv h1 s1"
    unfolding buffer_inv_def h1 by (auto simp: s1)
qed

lemma buffer_inv_push:
  assumes inv: "buffer_inv h s" and r: "r < length h"
    and le: "\<forall>x\<in>refs_of s. seen_at (h ! x) \<le> seen_at (h ! r)"
  defines "s1 \<equiv> s\<lparr>active_window := deque_append (nat (window_size s)) (active_window s) r,
                   buffer := buffer s @ [r]\<rparr>"
  shows "buffer_inv h s1" and "refs_of s1 \<subseteq> insert r (refs_of s)"
proof -
  show sub: "refs_of s1 \<subseteq> insert r (refs_of s)"
    unfolding s1_def refs_of_def
    using set_deque_append [of "nat (window_size s)" "active_window s" r] by auto
  from inv have "windows_ok (\<lambda>r. seen_at (h ! r)) (nat (window_size s))
      (buffer s) (active_window s) (stable_window s)"
    by (simp add: buffer_inv_def)
  from windows_ok_push [OF this, of r] le
  have "windows_ok (\<lambda>r. seen_at (h ! r)) (nat (window_size s))
      (buffer s @ [r]) (deque_append (nat (window_size s)) (active_window s) r) (stable_window s)"
    by (auto simp: refs_of_def)
  then show "buffer_inv h s1"
    unfolding buffer_inv_def using sub inv r by (auto simp: s1_def buffer_inv_def)
qed

lemma buffer_inv_store:
  assumes inv: "buffer_inv h s" and "length h \<le> length h1"
    and "\<forall>r<length h. seen_at (h1 ! r) = seen_at (h ! r)"
  shows "buffer_inv h1 s"
proof -
  from inv have sub: "refs_of s \<subseteq> {..<length h}" by (simp add: buffer_inv_def)
  then have "\<forall>r\<in>set (buffer s) \<union> set (active_window s) \<union> set (stable_window s).
      seen_at (h ! r) = seen_at (h1 ! r)"
    using assms(3) by (auto simp: refs_of_def)
  from windows_ok_cong [OF this] inv sub assms(2) show ?thesis
    by (auto simp: buffer_inv_def)
qed

lemma seen_at_relabel [simp]: "seen_at (relabel i rs h ! r) = seen_at (h ! r)"
  by (simp add: relabel_nth)

lemma buffer_inv_reset:
  assumes inv: "buffer_inv h s" and reset: "reset_on_drift i d (h, s) = (h1, s1)"
  shows "buffer_inv h1 s1" and "refs_of s1 \<subseteq> refs_of s"
proof -
  let ?P = "\<lambda>r. seen_at (h ! r) \<le> d"
  from reset have s1: "s1 = s\<lparr>buffer := dropWhile ?P (buffer s),
        active_window := dropWhile ?P (active_window s),
        stable_window := dropWhile ?P (stable_window s)\<rparr>"
    and h1: "length h1 = length h" "\<forall>r. seen_at (h1 ! r) = seen_at (h ! r)"
    by (auto simp: reset_on_drift_eq popleft_while_eq)
  show sub: "refs_of s1 \<subseteq> refs_of s"
    unfolding s1 refs_of_def by (auto dest: set_dropWhileD)
  from inv have "windows_ok (\<lambda>r. seen_at (h ! r)) (nat (window_size s))
      (buffer s) (active_window s) (stable_window s)"
    by (simp add: buffer_inv_def)
  from windows_ok_prune [OF this, of d] sub inv
  have "buffer_inv h s1" by (auto simp: buffer_inv_def s1)
  then show "buffer_inv h1 s1" using h1 by (auto intro: buffer_inv_store)
qed

lemma ob_step_seen_at:
  assumes "ob_step c (h, s) = (out, h1, s1)"
  shows "length h \<le> length h1" and "\<forall>r<length h. seen_at (h1 ! r) = seen_at (h ! r)"
proof -
  have "ob_run [c] (h, s) = (out, h1, s1)" using assms by simp
  from ob_run_seen_at [OF this] show "length h \<le> length h1"
    and "\<forall>r<length h. seen_at (h1 ! r) = seen_at (h ! r)"
    by (cases "h = []"; auto)+
qed

lemma ob_step_inv:
  assumes step: "ob_step c (h, s) = (out, h1, s1)"
    and inv: "buffer_inv h s"
    and v: "valid_calls [c] (length h)"
    and le: "\<forall>x\<in>refs_of s. \<forall>r\<in>set (inserted [c] (length h)). seen_at (h ! x) \<le> seen_at (h1 ! r)"
  shows "buffer_inv h1 s1"
    and "refs_of s1 \<subseteq> refs_of s \<union> set (inserted [c] (length h))"
    and "set (inserted [c] (length h)) \<subseteq> {..<length h1}"
proof -
  have "buffer_inv h1 s1 \<and> refs_of s1 \<subseteq> refs_of s \<union> set (inserted [c] (length h)) \<and>
        set (inserted [c] (length h)) \<subseteq> {..<length h1}"
  proof (cases c)
    case (Buffer_data x y cur st i w)
    let ?ob = "Observation_init x y cur i w"
    let ?h = "h @ [?ob]"
    let ?s = "s\<lparr>active_window := deque_append (nat (window_size s)) (active_window s) (length h),
               buffer := buffer s @ [length h]\<rparr>"
    from step Buffer_data have rel: "release_buffer st (?h, ?s) = (out, h1, s1)"
      by (simp add: buffer_data_eq add_observation_eq)
    then have h1: "h1 = ?h" by (simp add: release_buffer_eq)
    have sub: "refs_of s \<subseteq> {..<length h}" using inv by (simp add: buffer_inv_def)
    have inv': "buffer_inv ?h s"
      by (rule buffer_inv_store [OF inv]) (simp_all add: nth_append)
    have "\<forall>x\<in>refs_of s. seen_at (?h ! x) \<le> seen_at (?h ! length h)"
      using le sub unfolding Buffer_data h1 by (auto simp: nth_append)
    from buffer_inv_push [OF inv' _ this] have "buffer_inv ?h ?s" "refs_of ?s \<subseteq> insert (length h) (refs_of s)"
      by simp_all
    with buffer_inv_release [OF _ rel] show ?thesis
      unfolding Buffer_data h1 by auto
  next
    case (Add_observation r st)
    let ?s = "s\<lparr>active_window := deque_append (nat (window_size s)) (active_window s) r,
               buffer := buffer s @ [r]\<rparr>"
    from step Add_observation have rel: "release_buffer st (h, ?s) = (out, h1, s1)"
      by (simp add: add_observation_eq)
    then have h1: "h1 = h" by (simp add: release_buffer_eq)
    have r: "r < length h" using v Add_observation by simp
    have "\<forall>x\<in>refs_of s. seen_at (h ! x) \<le> seen_at (h ! r)"
      using le unfolding Add_observation h1 by simp
    from buffer_inv_push [OF inv r this] have "buffer_inv h ?s" "refs_of ?s \<subseteq> insert r (refs_of s)"
      by simp_all
    with buffer_inv_release [OF _ rel] r show ?thesis
      unfolding Add_observation h1 by auto
  next
    case (Release_buffer st)
    with step have rel: "release_buffer st (h, s) = (out, h1, s1)" by simp
    from buffer_inv_release [OF inv rel] show ?thesis
      unfolding Release_buffer by auto
  next
    case (Reset_on_drift i d)
    with step have "reset_on_drift i d (h, s) = (h1, s1)" by simp
    from buffer_inv_reset [OF inv this] show ?thesis
      unfolding Reset_on_drift by auto
  qed
  then show "buffer_inv h1 s1"
    and "refs_of s1 \<subseteq> refs_of s \<union> set (inserted [c] (length h))"
    and "set (inserted [c] (length h)) \<subseteq> {..<length h1}"
    by simp_all
qed

lemma ob_run_inv:
  assumes "ob_run cs (h, s) = (outs, h', s')"
    and "buffer_inv h s"
    and "valid_calls cs (length h)"
    and "sorted (map (\<lambda>r. seen_at (h' ! r)) (inserted cs (length h)))"
    and "\<forall>x\<in>refs_of s. \<forall>r\<in>set (inserted cs (length h)). seen_at (h ! x) \<le> seen_at (h' ! r)"
  shows "buffer_inv h' s'"
  using assms
proof (induction cs arbitrary: h s outs)
  case Nil
  then show ?case by simp
next
  case (Cons c cs)
  obtain out h1 s1 where step: "ob_step c (h, s) = (out, h1, s1)"
    by (metis prod_cases3)
  obtain outs1 where run: "ob_run cs (h1, s1) = (outs1, h', s')"
    using Cons.prems(1) step by (auto split: prod.splits)
  note cc = calls_Cons [OF step, of cs]
  have v: "valid_calls [c] (length h)" "valid_calls cs (length h1)"
    using Cons.prems(3) cc by simp_all
  have sub: "refs_of s \<subseteq> {..<length h}" using Cons.prems(2) by (simp add: buffer_inv_def)
  note keep1 = ob_step_seen_at [OF step]
  have keep2: "seen_at (h' ! r) = seen_at (h1 ! r)" if "r < length h1" for r
    using ob_run_seen_at(1) [OF run that] .
  have new: "set (inserted [c] (length h)) \<subseteq> {..<length h1}"
    using step v(1)
    by (cases c) (auto simp: buffer_data_eq add_observation_eq release_buffer_eq)
  have le1: "\<forall>x\<in>refs_of s. \<forall>r\<in>set (inserted [c] (length h)). seen_at (h ! x) \<le> seen_at (h1 ! r)"
  proof (intro ballI)
    fix x r assume x: "x \<in> refs_of s" and r: "r \<in> set (inserted [c] (length h))"
    from r new have "seen_at (h' ! r) = seen_at (h1 ! r)" by (auto intro: keep2)
    moreover have "seen_at (h ! x) \<le> seen_at (h' ! r)"
      using Cons.prems(5) x r unfolding cc(1) by simp
    ultimately show "seen_at (h ! x) \<le> seen_at (h1 ! r)" by simp
  qed
  note st = ob_step_inv [OF step Cons.prems(2) v(1) le1]
  have srt: "sorted (map (\<lambda>r. seen_at (h' ! r)) (inserted cs (length h1)))"
    and cross: "\<forall>x\<in>set (inserted [c] (length h)). \<forall>r\<in>set (inserted cs (length h1)).
       seen_at (h' ! x) \<le> seen_at (h' ! r)"
    using Cons.prems(4) unfolding cc(1) by (auto simp: sorted_append)
  have le2: "\<forall>x\<in>refs_of s1. \<forall>r\<in>set (inserted cs (length h1)). seen_at (h1 ! x) \<le> seen_at (h' ! r)"
  proof (intro ballI)
    fix x r assume x: "x \<in> refs_of s1" and r: "r \<in> set (inserted cs (length h1))"
    from x st(2) consider "x \<in> refs_of s" | "x \<in> set (inserted [c] (length h))" by blast
    then show "seen_at (h1 ! x) \<le> seen_at (h' ! r)"
    proof cases
      case 1
      with sub have "seen_at (h1 ! x) = seen_at (h ! x)" using keep1(2) by auto
      moreover have "seen_at (h ! x) \<le> seen_at (h' ! r)"
        using Cons.prems(5) 1 r unfolding cc(1) by simp
      ultimately show ?thesis by simp
    next
      case 2
      with new have "seen_at (h' ! x) = seen_at (h1 ! x)" by (auto intro: keep2)
      with cross 2 r show ?thesis by auto
    qed
  qed
  show ?case by (rule Cons.IH [OF run st(1) v(2) srt le2])
qed

lemma buffer_inv_init:
  "ObservationBuffer_init w = Inr s0 \<Longrightarrow> buffer_inv h s0 \<and> refs_of s0 = {}"
  by (auto simp: ObservationBuffer_init_def buffer_inv_def refs_of_def windows_ok_def
      split: if_splits)

lemma dropWhile_sorted_gt:
  assumes "sorted (map f xs)" and "x \<in> set (dropWhile (\<lambda>x. f x \<le> (d::real)) xs)"
  shows "d < f x"
  using assms by (simp add: dropWhile_sorted_filter)

lemma windows_ok_covered:
  "windows_ok f m b a st \<Longrightarrow> set a \<subseteq> set b \<union> set st"
  by (auto simp: windows_ok_def suffix_def)

lemma ob_run_from_init_inv:
  assumes init: "ObservationBuffer_init w = Inr s0"
    and valid: "valid_calls cs (length h)"
    and run: "ob_run cs (h, s0) = (outs, h1, s1)"
    and sorted: "sorted (map (\<lambda>r. seen_at (h1 ! r)) (inserted cs (length h)))"
  shows "buffer_inv h1 s1"
proof -
  from buffer_inv_init [OF init, of h] have "buffer_inv h s0" "refs_of s0 = {}" by simp_all
  then show ?thesis using ob_run_inv [OF run _ valid sorted] by simp
qed

lemma reset_on_drift_pruned:
  assumes inv: "buffer_inv h1 s1" and reset: "reset_on_drift new_id d (h1, s1) = (h2, s2)"
  shows "\<forall>r\<in>set (buffer s2) \<union> set (active_window s2) \<union> set (stable_window s2).
           d < seen_at (h2 ! r)"
proof -
  let ?f = "\<lambda>r. seen_at (h1 ! r)"
  from inv have "sorted (map ?f (stable_window s1 @ buffer s1))" "sorted (map ?f (active_window s1))"
    by (simp_all add: buffer_inv_def windows_ok_def)
  then have srt: "sorted (map ?f (buffer s1))" "sorted (map ?f (active_window s1))"
    "sorted (map ?f (stable_window s1))"
    by (simp_all add: sorted_append)
  from reset have s2: "buffer s2 = dropWhile (\<lambda>r. ?f r \<le> d) (buffer s1)"
    "active_window s2 = dropWhile (\<lambda>r. ?f r \<le> d) (active_window s1)"
    "stable_window s2 = dropWhile (\<lambda>r. ?f r \<le> d) (stable_window s1)"
    and h2: "\<forall>r. seen_at (h2 ! r) = ?f r"
    by (auto simp: reset_on_drift_eq popleft_while_eq)
  show ?thesis
    unfolding s2 using srt h2 by (auto dest: dropWhile_sorted_gt [of ?f])
qed

lemma reset_on_drift_relabelled:
  assumes inv: "buffer_inv h1 s1" and reset: "reset_on_drift new_id d (h1, s1) = (h2, s2)"
  shows "\<forall>r\<in>set (buffer s2) \<union> set (stable_window s2). active_state_id (h2 ! r) = new_id"
proof
  fix r assume r: "r \<in> set (buffer s2) \<union> set (stable_window s2)"
  from buffer_inv_reset(2) [OF inv reset] inv have "refs_of s2 \<subseteq> {..<length h1}"
    by (auto simp: buffer_inv_def)
  with r have lt: "r < length h1" by (auto simp: refs_of_def)
  from reset have "h2 = relabel new_id (buffer s2) (relabel new_id (stable_window s2) h1)"
    by (auto simp: reset_on_drift_eq)
  with r lt show "active_state_id (h2 ! r) = new_id"
    by (auto simp: relabel_nth)
qed

section \<open>Properties of ObservationBuffer\<close>

text \<open>
  C1. Take any sequence of \<open>buffer_data\<close>, \<open>add_observation\<close> and \<open>release_buffer\<close>
  calls on a new buffer, and then call \<open>release_buffer(t)\<close>. The buffer holds the
  inserted observations not yet released, in insertion order. The call returns the longest
  prefix of the buffer whose observations have \<open>seen_at <= t\<close>: what it returns followed by
  what it leaves is the buffer before, every returned observation has \<open>seen_at <= t\<close>, and
  the first one left (if any) has \<open>seen_at > t\<close>. Each returned observation is appended,
  in order, to the stable window (with the eviction of \<open>deque\<close>); the store and the active
  window are untouched. When no earlier call passed a stable timestamp above \<open>t\<close>, all
  outputs so far, concatenated, are the longest prefix of the inserted observations with
  \<open>seen_at <= t\<close>, which is all inserted observations with \<open>seen_at <= t\<close> when they were
  inserted with non-decreasing \<open>seen_at\<close>.
\<close>
theorem release_buffer_prefix:
  assumes init: "ObservationBuffer_init w = Inr s0"
    and calls: "no_reset cs" "valid_calls cs (length h)"
    and run: "ob_run cs (h, s0) = (outs, h1, s1)"
    and rel: "release_buffer t (h1, s1) = (rel, h2, s2)"
  shows "outs @ buffer s1 = inserted cs (length h) \<and>
         buffer s1 = rel @ buffer s2 \<and>
         (\<forall>r\<in>set rel. seen_at (h2 ! r) \<le> t) \<and>
         (buffer s2 \<noteq> [] \<longrightarrow> t < seen_at (h2 ! hd (buffer s2))) \<and>
         stable_window s2 = foldl (deque_append (nat w)) (stable_window s1) rel \<and>
         active_window s2 = active_window s1 \<and> h2 = h1 \<and>
         ((\<forall>t'\<in>set (thresholds cs). t' \<le> t) \<longrightarrow>
            outs @ rel = takeWhile (\<lambda>r. seen_at (h2 ! r) \<le> t) (inserted cs (length h))) \<and>
         ((\<forall>t'\<in>set (thresholds cs). t' \<le> t) \<and>
          sorted (map (\<lambda>r. seen_at (h2 ! r)) (inserted cs (length h))) \<longrightarrow>
            outs @ rel = filter (\<lambda>r. seen_at (h2 ! r) \<le> t) (inserted cs (length h)))"
proof -
  let ?P = "\<lambda>r. seen_at (h1 ! r) \<le> t"
  have s0: "buffer s0 = []" "window_size s0 = w"
    using init by (auto simp: ObservationBuffer_init_def split: if_splits)
  have w: "window_size s1 = w" using ob_run_window_size [OF run] s0 by simp
  from ob_run_released [OF run calls] s0
  have ins: "outs @ buffer s1 = inserted cs (length h)"
    and old: "\<forall>r\<in>set outs. \<exists>t'\<in>set (thresholds cs). seen_at (h1 ! r) \<le> t'"
    by simp_all
  have h2: "h2 = h1" and r: "rel = takeWhile ?P (buffer s1)"
    and b: "buffer s2 = dropWhile ?P (buffer s1)"
    and st: "stable_window s2 = foldl (deque_append (nat w)) (stable_window s1) rel"
    and a: "active_window s2 = active_window s1"
    using rel by (auto simp: release_buffer_eq w)
  have split: "buffer s1 = rel @ buffer s2" by (simp add: r b)
  have le: "\<forall>r\<in>set rel. seen_at (h2 ! r) \<le> t"
    unfolding r h2 by (auto dest: set_takeWhileD)
  have gt: "buffer s2 \<noteq> [] \<longrightarrow> t < seen_at (h2 ! hd (buffer s2))"
  proof
    assume "buffer s2 \<noteq> []"
    then have "\<not> ?P (hd (buffer s2))" unfolding b by (rule dropWhile_hd)
    then show "t < seen_at (h2 ! hd (buffer s2))" unfolding h2 by simp
  qed
  have tw: "outs @ rel = takeWhile ?P (inserted cs (length h))"
    if "\<forall>t'\<in>set (thresholds cs). t' \<le> t"
  proof -
    from that old have "\<forall>r\<in>set outs. ?P r" by fastforce
    then have "takeWhile ?P (outs @ buffer s1) = outs @ takeWhile ?P (buffer s1)"
      by (rule takeWhile_all)
    then show ?thesis by (simp add: ins r)
  qed
  have fl: "outs @ rel = filter ?P (inserted cs (length h))"
    if "\<forall>t'\<in>set (thresholds cs). t' \<le> t"
      and "sorted (map (\<lambda>r. seen_at (h1 ! r)) (inserted cs (length h)))"
    using tw [OF that(1)] takeWhile_sorted_filter [OF that(2), of t] by simp
  show ?thesis
    using ins split le gt st a tw fl unfolding h2 by blast
qed

theorem release_buffer_prefix_witness:
  "ObservationBuffer_init 2 = Inr (empty_buffer 2) \<and>
   no_reset example_calls \<and> valid_calls example_calls 0 \<and>
   inserted example_calls 0 = [0, 1, 2] \<and>
   thresholds example_calls = [0, 0, 1] \<and>
   fst (ob_run example_calls ([], empty_buffer 2)) = [0] \<and>
   map seen_at (fst (snd (ob_run example_calls ([], empty_buffer 2)))) = [1, 2, 3] \<and>
   buffer (snd (snd (ob_run example_calls ([], empty_buffer 2)))) = [1, 2] \<and>
   fst (release_buffer 2 (snd (ob_run example_calls ([], empty_buffer 2)))) = [1] \<and>
   buffer (snd (snd (release_buffer 2 (snd (ob_run example_calls ([], empty_buffer 2)))))) = [2] \<and>
   stable_window (snd (snd (release_buffer 2 (snd (ob_run example_calls ([], empty_buffer 2))))))
     = [0, 1] \<and>
   fst (ob_run example_calls ([], empty_buffer 2))
     @ fst (release_buffer 2 (snd (ob_run example_calls ([], empty_buffer 2))))
     = filter (\<lambda>r. seen_at (fst (snd (ob_run example_calls ([], empty_buffer 2))) ! r) \<le> 2)
         (inserted example_calls 0)"
proof -
  define h1 where "h1 = [Observation_init [] None 1 0 1, Observation_init [] None 2 0 1,
    Observation_init [] None 3 0 1]"
  define s1 where "s1 = \<lparr> window_size = 2, buffer = [1, 2], active_window = [1, 2],
    stable_window = [0::nat] \<rparr>"
  define s2 where "s2 = \<lparr> window_size = 2, buffer = [2], active_window = [1, 2],
    stable_window = [0, 1::nat] \<rparr>"
  have init: "ObservationBuffer_init 2 = Inr (empty_buffer 2)"
    by (simp add: ObservationBuffer_init_def empty_buffer_def)
  have run: "ob_run example_calls ([], empty_buffer 2) = ([0], h1, s1)"
    by (simp add: example_calls_def empty_buffer_def h1_def s1_def buffer_data_def alloc_def
        add_observation_def release_buffer_def deque_append_def Observation_init_def)
  have rel: "release_buffer 2 (h1, s1) = ([1], h1, s2)"
    by (simp add: h1_def s1_def s2_def release_buffer_def deque_append_def Observation_init_def)
  have calls: "no_reset example_calls" "valid_calls example_calls (length ([] :: heap))"
    by (simp_all add: example_calls_def)
  have ins: "inserted example_calls 0 = [0, 1, 2]" "thresholds example_calls = [0, 0, 1]"
    by (simp_all add: example_calls_def)
  have times: "map seen_at h1 = [1, 2, 3]" by (simp add: h1_def Observation_init_def)
  have at: "seen_at (h1 ! 0) = 1" "seen_at (h1 ! Suc 0) = 2" "seen_at (h1 ! 2) = 3"
    by (simp_all add: h1_def Observation_init_def)
  have fields: "buffer s1 = [1, 2]" "buffer s2 = [2]" "stable_window s2 = [0, 1]"
    by (simp_all add: s1_def s2_def)
  have "[0] @ [1] = filter (\<lambda>r. seen_at (h1 ! r) \<le> 2) (inserted example_calls 0)"
    using release_buffer_prefix [OF init calls run rel] by (simp add: ins at)
  then show ?thesis
    unfolding run rel fst_conv snd_conv
    using init calls ins times fields by simp
qed

lemma drift_calls_run:
  "ob_run drift_calls ([], empty_buffer 3) =
     ([0, 1],
      [Observation_init [] None 1 0 1, Observation_init [] None 2 0 1,
       Observation_init [] None 3 0 1],
      \<lparr> window_size = 3, buffer = [2], active_window = [0, 1, 2], stable_window = [0, 1] \<rparr>)"
  by (simp add: drift_calls_def empty_buffer_def buffer_data_def alloc_def
      add_observation_def release_buffer_def deque_append_def Observation_init_def)

lemma drift_calls_reset:
  "reset_on_drift 7 1
     ([Observation_init [] None 1 0 1, Observation_init [] None 2 0 1,
       Observation_init [] None 3 0 1],
      \<lparr> window_size = 3, buffer = [2], active_window = [0, 1, 2], stable_window = [0, 1] \<rparr>) =
     ([Observation_init [] None 1 0 1, Observation_init [] None 2 7 1,
       Observation_init [] None 3 7 1],
      \<lparr> window_size = 3, buffer = [2], active_window = [1, 2], stable_window = [1] \<rparr>)"
  by (simp add: reset_on_drift_def Let_def Observation_init_def)

text \<open>
  C2. Take any sequence of calls on a new buffer that inserts observations with
  non-decreasing \<open>seen_at\<close>. After \<open>reset_on_drift(new_id, d)\<close> no observation in the
  buffer, the active window or the stable window has \<open>seen_at <= d\<close>, and every
  observation in the buffer and in the stable window has \<open>active_state_id = new_id\<close>.
\<close>
theorem reset_on_drift_prunes:
  assumes init: "ObservationBuffer_init w = Inr s0"
    and valid: "valid_calls cs (length h)"
    and run: "ob_run cs (h, s0) = (outs, h1, s1)"
    and sorted: "sorted (map (\<lambda>r. seen_at (h1 ! r)) (inserted cs (length h)))"
    and reset: "reset_on_drift new_id d (h1, s1) = (h2, s2)"
  shows "(\<forall>r\<in>set (buffer s2) \<union> set (active_window s2) \<union> set (stable_window s2).
            \<not> seen_at (h2 ! r) \<le> d) \<and>
         (\<forall>r\<in>set (buffer s2) \<union> set (stable_window s2). active_state_id (h2 ! r) = new_id)"
proof -
  note inv = ob_run_from_init_inv [OF init valid run sorted]
  from reset_on_drift_pruned [OF inv reset] reset_on_drift_relabelled [OF inv reset]
  show ?thesis by (simp add: not_le)
qed

theorem reset_on_drift_prunes_witness:
  "ObservationBuffer_init 3 = Inr (empty_buffer 3) \<and>
   valid_calls drift_calls 0 \<and>
   inserted drift_calls 0 = [0, 1, 2] \<and>
   map seen_at (fst (snd (ob_run drift_calls ([], empty_buffer 3)))) = [1, 2, 3] \<and>
   buffer (snd (reset_on_drift 7 1 (snd (ob_run drift_calls ([], empty_buffer 3))))) = [2] \<and>
   active_window (snd (reset_on_drift 7 1 (snd (ob_run drift_calls ([], empty_buffer 3))))) = [1, 2] \<and>
   stable_window (snd (reset_on_drift 7 1 (snd (ob_run drift_calls ([], empty_buffer 3))))) = [1] \<and>
   map seen_at (fst (reset_on_drift 7 1 (snd (ob_run drift_calls ([], empty_buffer 3))))) = [1, 2, 3] \<and>
   map active_state_id (fst (reset_on_drift 7 1 (snd (ob_run drift_calls ([], empty_buffer 3)))))
     = [0, 7, 7] \<and>
   \<not> seen_at (fst (reset_on_drift 7 1 (snd (ob_run drift_calls ([], empty_buffer 3)))) ! 2) \<le> 1 \<and>
   active_state_id (fst (reset_on_drift 7 1 (snd (ob_run drift_calls ([], empty_buffer 3)))) ! 2) = 7"
proof -
  have init: "ObservationBuffer_init 3 = Inr (empty_buffer 3)"
    by (simp add: ObservationBuffer_init_def empty_buffer_def)
  have valid: "valid_calls drift_calls (length ([] :: heap))"
    and ins: "inserted drift_calls 0 = [0, 1, 2]"
    by (simp_all add: drift_calls_def)
  have srt: "sorted (map (\<lambda>r. seen_at ([Observation_init [] None 1 0 1, Observation_init [] None 2 0 1,
       Observation_init [] None 3 0 1] ! r)) (inserted drift_calls (length ([] :: heap))))"
    by (simp add: ins Observation_init_def)
  from reset_on_drift_prunes [OF init valid drift_calls_run srt drift_calls_reset]
  have "\<not> seen_at ([Observation_init [] None 1 0 1, Observation_init [] None 2 7 1,
       Observation_init [] None 3 7 1] ! 2) \<le> 1 \<and>
     active_state_id ([Observation_init [] None 1 0 1, Observation_init [] None 2 7 1,
       Observation_init [] None 3 7 1] ! 2) = 7"
    by simp
  then show ?thesis
    unfolding drift_calls_run snd_conv fst_conv drift_calls_reset
    using init valid ins by (simp add: Observation_init_def)
qed

text \<open>
  C3. Take any sequence of calls on a new buffer that inserts observations with
  non-decreasing \<open>seen_at\<close>. Every observation left in the active window has
  \<open>active_state_id = new_id\<close> after \<open>reset_on_drift(new_id, d)\<close>, although the method
  assigns only through the stable window and the buffer: before and after the call, every
  reference in the active window is also held by the buffer or by the stable window, and a
  reference denotes one object of the store.
\<close>
theorem active_window_relabelled:
  assumes init: "ObservationBuffer_init w = Inr s0"
    and valid: "valid_calls cs (length h)"
    and run: "ob_run cs (h, s0) = (outs, h1, s1)"
    and sorted: "sorted (map (\<lambda>r. seen_at (h1 ! r)) (inserted cs (length h)))"
    and reset: "reset_on_drift new_id d (h1, s1) = (h2, s2)"
  shows "set (active_window s1) \<subseteq> set (buffer s1) \<union> set (stable_window s1) \<and>
         set (active_window s2) \<subseteq> set (buffer s2) \<union> set (stable_window s2) \<and>
         (\<forall>r\<in>set (active_window s2). active_state_id (h2 ! r) = new_id)"
proof -
  note inv = ob_run_from_init_inv [OF init valid run sorted]
  note inv2 = buffer_inv_reset(1) [OF inv reset]
  have 1: "set (active_window s1) \<subseteq> set (buffer s1) \<union> set (stable_window s1)"
    using inv by (auto simp: buffer_inv_def dest: windows_ok_covered)
  have 2: "set (active_window s2) \<subseteq> set (buffer s2) \<union> set (stable_window s2)"
    using inv2 by (auto simp: buffer_inv_def dest: windows_ok_covered)
  from reset_on_drift_relabelled [OF inv reset] 2
  have "\<forall>r\<in>set (active_window s2). active_state_id (h2 ! r) = new_id" by blast
  with 1 2 show ?thesis by simp
qed

theorem active_window_relabelled_witness:
  "ObservationBuffer_init 3 = Inr (empty_buffer 3) \<and>
   valid_calls drift_calls 0 \<and>
   buffer (snd (snd (ob_run drift_calls ([], empty_buffer 3)))) = [2] \<and>
   active_window (snd (snd (ob_run drift_calls ([], empty_buffer 3)))) = [0, 1, 2] \<and>
   stable_window (snd (snd (ob_run drift_calls ([], empty_buffer 3)))) = [0, 1] \<and>
   buffer (snd (reset_on_drift 7 1 (snd (ob_run drift_calls ([], empty_buffer 3))))) = [2] \<and>
   active_window (snd (reset_on_drift 7 1 (snd (ob_run drift_calls ([], empty_buffer 3))))) = [1, 2] \<and>
   stable_window (snd (reset_on_drift 7 1 (snd (ob_run drift_calls ([], empty_buffer 3))))) = [1] \<and>
   active_state_id (fst (reset_on_drift 7 1 (snd (ob_run drift_calls ([], empty_buffer 3)))) ! 1) = 7 \<and>
   active_state_id (fst (reset_on_drift 7 1 (snd (ob_run drift_calls ([], empty_buffer 3)))) ! 2) = 7"
proof -
  have init: "ObservationBuffer_init 3 = Inr (empty_buffer 3)"
    by (simp add: ObservationBuffer_init_def empty_buffer_def)
  have valid: "valid_calls drift_calls (length ([] :: heap))"
    and ins: "inserted drift_calls 0 = [0, 1, 2]"
    by (simp_all add: drift_calls_def)
  have srt: "sorted (map (\<lambda>r. seen_at ([Observation_init [] None 1 0 1, Observation_init [] None 2 0 1,
       Observation_init [] None 3 0 1] ! r)) (inserted drift_calls (length ([] :: heap))))"
    by (simp add: ins Observation_init_def)
  from active_window_relabelled [OF init valid drift_calls_run srt drift_calls_reset]
  have "active_state_id ([Observation_init [] None 1 0 1, Observation_init [] None 2 7 1,
       Observation_init [] None 3 7 1] ! 1) = 7 \<and>
     active_state_id ([Observation_init [] None 1 0 1, Observation_init [] None 2 7 1,
       Observation_init [] None 3 7 1] ! 2) = 7"
    by simp
  then show ?thesis
    unfolding drift_calls_run snd_conv fst_conv drift_calls_reset
    using init valid by simp
qed

section \<open>Properties of SupervisedUnsupervisedBuffer\<close>

lemma example_su_init:
  "SupervisedUnsupervisedBuffer_init 2 1 1 ''supervised'' = Inr example_su"
  by (simp add: SupervisedUnsupervisedBuffer_init_def ObservationBuffer_init_def
      example_su_def empty_buffer_def)

lemma buffer_unsupervised_eq:
  "buffer_unsupervised fsub x i cur w (h, s) =
     (let t = (if cur = - 1 then unsupervised_active_timestamp s + 1 else cur);
          s1 = s\<lparr>unsupervised_active_timestamp := t\<rparr>;
          r = ob_step (Buffer_data x None t (snd (get_unsupervised_timestamps fsub s1)) i w)
                (h, unsupervised_buffer s)
      in (deque_last (active_window (snd (snd r))), fst (snd r),
          s1\<lparr>unsupervised_buffer := snd (snd r),
             stable_unsupervised := stable_unsupervised s @ fst r\<rparr>))"
  by (simp add: buffer_unsupervised_def Let_def split: prod.splits)

lemma buffer_supervised_eq:
  "buffer_supervised fsub x y i cur w (h, s) =
     (let t = (if cur = - 1 then supervised_active_timestamp s + 1 else cur);
          s1 = s\<lparr>supervised_active_timestamp := t\<rparr>;
          r = ob_step (Buffer_data x (Some y) t (snd (get_supervised_timestamps fsub s1)) i w)
                (h, supervised_buffer s)
      in (deque_last (active_window (snd (snd r))), fst (snd r),
          s1\<lparr>supervised_buffer := snd (snd r),
             stable_supervised := stable_supervised s @ fst r\<rparr>))"
  by (simp add: buffer_supervised_def Let_def split: prod.splits)

lemma collect_stable_unsupervised_eq:
  "collect_stable_unsupervised fsub (h, s) =
     (let r = ob_step (Release_buffer (snd (get_unsupervised_timestamps fsub s))) (h, unsupervised_buffer s)
      in (stable_unsupervised s @ fst r, fst (snd r),
          s\<lparr>unsupervised_buffer := snd (snd r), stable_unsupervised := []\<rparr>))"
  by (simp add: collect_stable_unsupervised_def Let_def split: prod.splits)

lemma collect_stable_supervised_eq:
  "collect_stable_supervised fsub (h, s) =
     (let r = ob_step (Release_buffer (snd (get_supervised_timestamps fsub s))) (h, supervised_buffer s)
      in (stable_supervised s @ fst r, fst (snd r),
          s\<lparr>supervised_buffer := snd (snd r), stable_supervised := []\<rparr>))"
  by (simp add: collect_stable_supervised_def Let_def split: prod.splits)






lemma su_after_calls_eq:
  "su_after_calls =
     ([Observation_init [] None 1 0 1, Observation_init [] (Some (Int_target 0)) 1 0 1,
       Observation_init [] (Some (Int_target 0)) 2 0 1],
      example_su\<lparr>supervised_active_timestamp := 2, unsupervised_active_timestamp := 1,
        unsupervised_buffer :=
          \<lparr> window_size = 2, buffer = [0], active_window = [0], stable_window = [] \<rparr>,
        supervised_buffer :=
          \<lparr> window_size = 2, buffer = [2], active_window = [1, 2], stable_window = [1] \<rparr>,
        stable_supervised := [1]\<rparr>)"
  by (simp add: su_after_calls_def example_su_def empty_buffer_def buffer_unsupervised_def
      buffer_supervised_def get_unsupervised_timestamps_def get_supervised_timestamps_def
      buffer_data_def alloc_def add_observation_def release_buffer_def deque_append_def
      Observation_init_def Let_def)

lemma su_after_calls_collect:
  "fst (collect_stable_unsupervised (-) su_after_calls) = [0]"
  by (simp add: su_after_calls_eq example_su_def collect_stable_unsupervised_def
      get_unsupervised_timestamps_def release_buffer_def deque_append_def
      Observation_init_def Let_def)

lemma buffer_data_released:
  "buffer_data x y cur t i w (h, s) = (out, h1, s1) \<Longrightarrow> \<forall>r\<in>set out. seen_at (h1 ! r) \<le> t"
  by (auto simp: buffer_data_eq add_observation_eq release_buffer_eq dest: set_takeWhileD)

lemma supervised_strategy:
  "release_strategy s = ''supervised'' \<Longrightarrow>
     get_unsupervised_timestamps fsub s =
       (supervised_active_timestamp s,
        fsub (supervised_active_timestamp s) (supervised_buffer_timeout s)) \<and>
     get_unsupervised_timestamps fsub s = get_supervised_timestamps fsub s"
  by (simp add: get_unsupervised_timestamps_def get_supervised_timestamps_def)

lemma su_step_release_strategy: "release_strategy (snd (su_step fsub c (h, s))) = release_strategy s"
  by (cases c)
    (simp_all add: buffer_unsupervised_eq buffer_supervised_eq collect_stable_unsupervised_eq
      collect_stable_supervised_eq su_reset_on_drift_def Let_def split: prod.splits)

lemma su_run_release_strategy: "release_strategy (snd (su_run fsub cs (h, s))) = release_strategy s"
proof (induction cs arbitrary: h s)
  case Nil
  then show ?case by simp
next
  case (Cons c cs)
  obtain h1 s1 where step: "su_step fsub c (h, s) = (h1, s1)" by (cases "su_step fsub c (h, s)")
  show ?case using Cons.IH [of h1 s1] su_step_release_strategy [of fsub c h s] by (simp add: step)
qed

text \<open>
  C4 (as amended). With \<open>release_strategy = "supervised"\<close>, whatever is added to
  \<open>stable_unsupervised\<close> by \<open>buffer_unsupervised\<close>, or to the result of
  \<open>collect_stable_unsupervised\<close> beyond what \<open>stable_unsupervised\<close> held, is an observation
  whose \<open>seen_at\<close> is at most the stable timestamp the code computes at that moment,
  \<open>supervised_active_timestamp - supervised_buffer_timeout\<close> in the program's own float
  subtraction; equality suffices. That stable timestamp is the one of the supervised
  track, \<open>buffer_unsupervised\<close> leaves the supervised clock and timeout as they are,
  \<open>buffer_supervised\<close> releases no unsupervised observation, what
  \<open>collect_stable_unsupervised\<close> returns does not depend on the unsupervised clock or
  timeout, and the strategy stays \<open>"supervised"\<close> over every sequence of calls, so this
  holds at every step of every interleaving.
\<close>

theorem unsupervised_release_gated:
  assumes sup: "release_strategy s = ''supervised''"
  shows "(\<exists>rel. stable_unsupervised (snd (snd (buffer_unsupervised fsub x i cur w (h, s))))
                  = stable_unsupervised s @ rel \<and>
            (\<forall>r\<in>set rel. seen_at (fst (snd (buffer_unsupervised fsub x i cur w (h, s))) ! r)
                           \<le> fsub (supervised_active_timestamp s) (supervised_buffer_timeout s))) \<and>
         supervised_active_timestamp (snd (snd (buffer_unsupervised fsub x i cur w (h, s))))
           = supervised_active_timestamp s \<and>
         supervised_buffer_timeout (snd (snd (buffer_unsupervised fsub x i cur w (h, s))))
           = supervised_buffer_timeout s \<and>
         (\<exists>rel. fst (collect_stable_unsupervised fsub (h, s)) = stable_unsupervised s @ rel \<and>
            (\<forall>r\<in>set rel. seen_at (h ! r)
                           \<le> fsub (supervised_active_timestamp s) (supervised_buffer_timeout s))) \<and>
         snd (get_unsupervised_timestamps fsub s)
           = fsub (supervised_active_timestamp s) (supervised_buffer_timeout s) \<and>
         get_unsupervised_timestamps fsub s = get_supervised_timestamps fsub s \<and>
         stable_unsupervised (snd (snd (buffer_supervised fsub x y i cur w (h, s))))
           = stable_unsupervised s \<and>
         unsupervised_buffer (snd (snd (buffer_supervised fsub x y i cur w (h, s))))
           = unsupervised_buffer s \<and>
         fst (collect_stable_unsupervised fsub
                (h, s\<lparr>unsupervised_active_timestamp := u, unsupervised_buffer_timeout := v\<rparr>))
           = fst (collect_stable_unsupervised fsub (h, s)) \<and>
         release_strategy (snd (su_run fsub cs (h, s))) = ''supervised''"
proof -
  let ?t = "if cur = - 1 then unsupervised_active_timestamp s + 1 else cur"
  let ?st = "fsub (supervised_active_timestamp s) (supervised_buffer_timeout s)"
  obtain out h1 ub where bd: "buffer_data x None ?t ?st i w (h, unsupervised_buffer s) = (out, h1, ub)"
    by (metis prod_cases3)
  have bu: "stable_unsupervised (snd (snd (buffer_unsupervised fsub x i cur w (h, s))))
              = stable_unsupervised s @ out"
    "fst (snd (buffer_unsupervised fsub x i cur w (h, s))) = h1"
    "supervised_active_timestamp (snd (snd (buffer_unsupervised fsub x i cur w (h, s))))
           = supervised_active_timestamp s"
    "supervised_buffer_timeout (snd (snd (buffer_unsupervised fsub x i cur w (h, s))))
           = supervised_buffer_timeout s"
    using sup bd by (simp_all add: buffer_unsupervised_eq get_unsupervised_timestamps_def Let_def)
  from buffer_data_released [OF bd]
  have "\<forall>r\<in>set out. seen_at (h1 ! r) \<le> ?st" .
  with bu have 1: "\<exists>rel. stable_unsupervised (snd (snd (buffer_unsupervised fsub x i cur w (h, s))))
                  = stable_unsupervised s @ rel \<and>
            (\<forall>r\<in>set rel. seen_at (fst (snd (buffer_unsupervised fsub x i cur w (h, s))) ! r) \<le> ?st)"
    by auto
  obtain out2 h2 ub2 where rb: "release_buffer ?st (h, unsupervised_buffer s) = (out2, h2, ub2)"
    by (metis prod_cases3)
  have co: "fst (collect_stable_unsupervised fsub (h, s)) = stable_unsupervised s @ out2"
    using sup rb by (simp add: collect_stable_unsupervised_eq get_unsupervised_timestamps_def)
  from release_buffer_released(3) [OF rb]
  have "\<forall>r\<in>set out2. seen_at (h ! r) \<le> ?st" .
  with co have 2: "\<exists>rel. fst (collect_stable_unsupervised fsub (h, s)) = stable_unsupervised s @ rel \<and>
            (\<forall>r\<in>set rel. seen_at (h ! r) \<le> ?st)"
    by auto
  have 3: "stable_unsupervised (snd (snd (buffer_supervised fsub x y i cur w (h, s))))
           = stable_unsupervised s"
    "unsupervised_buffer (snd (snd (buffer_supervised fsub x y i cur w (h, s))))
           = unsupervised_buffer s"
    by (simp_all add: buffer_supervised_eq Let_def)
  have 4: "fst (collect_stable_unsupervised fsub
                (h, s\<lparr>unsupervised_active_timestamp := u, unsupervised_buffer_timeout := v\<rparr>))
           = fst (collect_stable_unsupervised fsub (h, s))"
    using sup by (simp add: collect_stable_unsupervised_eq get_unsupervised_timestamps_def Let_def)
  have 5: "release_strategy (snd (su_run fsub cs (h, s))) = ''supervised''"
    using sup by (simp add: su_run_release_strategy)
  have 6: "snd (get_unsupervised_timestamps fsub s) = ?st"
    "get_unsupervised_timestamps fsub s = get_supervised_timestamps fsub s"
    using supervised_strategy [OF sup, of fsub] by (simp, metis)
  show ?thesis using 1 bu(3,4) 2 3 4 5 6 by blast
qed

theorem unsupervised_release_gated_witness:
  "SupervisedUnsupervisedBuffer_init 2 1 1 ''supervised'' = Inr example_su \<and>
   release_strategy (snd su_after_calls) = ''supervised'' \<and>
   stable_unsupervised (snd su_after_calls) = [] \<and>
   supervised_active_timestamp (snd su_after_calls) = 2 \<and>
   supervised_buffer_timeout (snd su_after_calls) = 1 \<and>
   fst (collect_stable_unsupervised (-) su_after_calls) = [0] \<and>
   seen_at (fst su_after_calls ! 0)
     \<le> supervised_active_timestamp (snd su_after_calls)
         - supervised_buffer_timeout (snd su_after_calls)"
proof -
  have sup: "release_strategy (snd su_after_calls) = ''supervised''"
    and empty: "stable_unsupervised (snd su_after_calls) = []"
    and clock: "supervised_active_timestamp (snd su_after_calls) = 2"
      "supervised_buffer_timeout (snd su_after_calls) = 1"
    by (simp_all add: su_after_calls_eq example_su_def)
  have "\<exists>rel. fst (collect_stable_unsupervised (-) su_after_calls)
      = stable_unsupervised (snd su_after_calls) @ rel \<and>
      (\<forall>r\<in>set rel. seen_at (fst su_after_calls ! r)
         \<le> supervised_active_timestamp (snd su_after_calls)
             - supervised_buffer_timeout (snd su_after_calls))"
    using unsupervised_release_gated [OF sup, where fsub = "(-)" and h = "fst su_after_calls"
        and x = "[]" and i = 0 and cur = 0 and w = 1 and y = "Int_target 0" and u = 0 and v = 0
        and cs = "[]"]
    by simp
  then obtain rel where "fst (collect_stable_unsupervised (-) su_after_calls)
      = stable_unsupervised (snd su_after_calls) @ rel"
    and le: "\<forall>r\<in>set rel. seen_at (fst su_after_calls ! r)
         \<le> supervised_active_timestamp (snd su_after_calls)
             - supervised_buffer_timeout (snd su_after_calls)"
    by blast
  then have "rel = [0]" by (simp add: su_after_calls_collect empty)
  with le have "seen_at (fst su_after_calls ! 0)
     \<le> supervised_active_timestamp (snd su_after_calls)
         - supervised_buffer_timeout (snd su_after_calls)" by simp
  then show ?thesis using example_su_init sup empty clock su_after_calls_collect by simp
qed

text \<open>
  C4 (as stated) fails at the boundary. On a new buffer with both timeouts 1, one
  \<open>buffer_unsupervised\<close> call (timestamp 1) and two \<open>buffer_supervised\<close> calls leave the
  supervised clock at 2; \<open>collect_stable_unsupervised\<close> then releases the unsupervised
  observation, although the supervised clock equals \<open>1 + supervised_buffer_timeout\<close> and
  has not advanced past it.
\<close>

theorem unsupervised_released_at_boundary:
  "SupervisedUnsupervisedBuffer_init 2 1 1 ''supervised'' = Inr example_su \<and>
   release_strategy (snd su_after_calls) = ''supervised'' \<and>
   stable_unsupervised (snd su_after_calls) = [] \<and>
   fst (collect_stable_unsupervised (-) su_after_calls) = [0] \<and>
   obs_y (fst su_after_calls ! 0) = None \<and>
   seen_at (fst su_after_calls ! 0) = 1 \<and>
   supervised_buffer_timeout (snd su_after_calls) = 1 \<and>
   supervised_active_timestamp (snd su_after_calls) = 2 \<and>
   \<not> seen_at (fst su_after_calls ! 0) + supervised_buffer_timeout (snd su_after_calls)
       < supervised_active_timestamp (snd su_after_calls)"
  using example_su_init su_after_calls_collect
  by (simp add: su_after_calls_eq example_su_def Observation_init_def)

lemma ob_step_is_stable:
  assumes "ob_step c (h, s) = (out, h1, s1)"
  shows "\<exists>n. map is_stable h1 = map is_stable h @ replicate n False"
proof -
  from ob_step_store [OF assms] obtain obs :: "Observation list" where
    "map is_stable h1 = map is_stable h @ map (\<lambda>_. False) obs" by blast
  then show ?thesis by (auto simp: map_replicate_const)
qed

lemma reset_on_drift_is_stable:
  "map is_stable (fst (reset_on_drift i d (h, s))) = map is_stable h"
  by (simp add: reset_on_drift_eq)

lemma su_step_is_stable:
  "\<exists>n. map is_stable (fst (su_step fsub c (h, s))) = map is_stable h @ replicate n False"
proof (cases c)
  case (Buffer_unsupervised x i cur w)
  let ?t = "if cur = - 1 then unsupervised_active_timestamp s + 1 else cur"
  let ?c = "Buffer_data x None ?t
      (snd (get_unsupervised_timestamps fsub (s\<lparr>unsupervised_active_timestamp := ?t\<rparr>))) i w"
  obtain out h1 s1 where st: "ob_step ?c (h, unsupervised_buffer s) = (out, h1, s1)"
    by (metis prod_cases3)
  then have "fst (su_step fsub c (h, s)) = h1"
    unfolding Buffer_unsupervised by (simp add: buffer_unsupervised_eq Let_def)
  with ob_step_is_stable [OF st] show ?thesis by simp
next
  case (Buffer_supervised x y i cur w)
  let ?t = "if cur = - 1 then supervised_active_timestamp s + 1 else cur"
  let ?c = "Buffer_data x (Some y) ?t
      (snd (get_supervised_timestamps fsub (s\<lparr>supervised_active_timestamp := ?t\<rparr>))) i w"
  obtain out h1 s1 where st: "ob_step ?c (h, supervised_buffer s) = (out, h1, s1)"
    by (metis prod_cases3)
  then have "fst (su_step fsub c (h, s)) = h1"
    unfolding Buffer_supervised by (simp add: buffer_supervised_eq Let_def)
  with ob_step_is_stable [OF st] show ?thesis by simp
next
  case Collect_stable_unsupervised
  then have "fst (su_step fsub c (h, s)) = h"
    by (simp add: collect_stable_unsupervised_eq Let_def release_buffer_eq)
  then show ?thesis by (intro exI [of _ 0]) simp
next
  case Collect_stable_supervised
  then have "fst (su_step fsub c (h, s)) = h"
    by (simp add: collect_stable_supervised_eq Let_def release_buffer_eq)
  then show ?thesis by (intro exI [of _ 0]) simp
next
  case (Su_reset_on_drift i d)
  have "map is_stable (fst (su_reset_on_drift fsub i d (h, s))) = map is_stable h"
    by (simp add: su_reset_on_drift_def Let_def reset_on_drift_eq split: prod.splits)
  then show ?thesis unfolding Su_reset_on_drift by (intro exI [of _ 0]) simp
qed

lemma su_run_is_stable:
  "\<exists>n. map is_stable (fst (su_run fsub cs (h, s))) = map is_stable h @ replicate n False"
proof (induction cs arbitrary: h s)
  case Nil
  show ?case by (intro exI [of _ 0]) simp
next
  case (Cons c cs)
  obtain h1 s1 where step: "su_step fsub c (h, s) = (h1, s1)" by (cases "su_step fsub c (h, s)")
  from su_step_is_stable [of fsub c h s] obtain n1 where
    1: "map is_stable h1 = map is_stable h @ replicate n1 False" by (auto simp: step)
  from Cons.IH [of h1 s1] obtain n2 where
    2: "map is_stable (fst (su_run fsub cs (h1, s1))) = map is_stable h1 @ replicate n2 False" by blast
  show ?case
    by (intro exI [of _ "n1 + n2"]) (simp add: step 1 2 replicate_add)
qed

lemma ob_run_is_stable:
  "\<exists>n. map is_stable (fst (snd (ob_run cs (h, s)))) = map is_stable h @ replicate n False"
proof -
  obtain outs h1 s1 where run: "ob_run cs (h, s) = (outs, h1, s1)" by (metis prod_cases3)
  from ob_run_store [OF run] obtain obs :: "Observation list" where
    "map is_stable h1 = map is_stable h @ map (\<lambda>_. False) obs" by blast
  then show ?thesis by (auto simp: run map_replicate_const)
qed

lemma is_stable_extended:
  assumes "map is_stable h1 = map is_stable h @ replicate n False" and "r < length h1"
  shows "is_stable (h1 ! r) = (r < length h \<and> is_stable (h ! r))"
proof -
  have len: "length h1 = length h + n"
    using arg_cong [OF assms(1), of length] by simp
  have "is_stable (h1 ! r) = map is_stable h1 ! r" using assms(2) by simp
  also have "\<dots> = (map is_stable h @ replicate n False) ! r" by (simp add: assms(1))
  also have "\<dots> = (r < length h \<and> is_stable (h ! r))"
    using assms(2) len by (auto simp: nth_append)
  finally show ?thesis .
qed

text \<open>
  C10. Releasing never changes an observation: \<open>release_buffer\<close>, \<open>add_observation\<close> and
  the two \<open>collect_stable\<close> methods leave the store as it is, and \<open>buffer_data\<close>,
  \<open>buffer_unsupervised\<close> and \<open>buffer_supervised\<close> only add the new observation, created with
  \<open>is_stable = False\<close>, so every field of every released observation is the same before and
  after. Over every sequence of calls on an \<open>ObservationBuffer\<close> or a
  \<open>SupervisedUnsupervisedBuffer\<close> (\<open>reset_on_drift\<close> included), \<open>is_stable\<close> of an
  observation that was in the store is unchanged and \<open>is_stable\<close> of an observation created
  by the calls is \<open>False\<close>.
\<close>

theorem release_leaves_observations:
  "fst (snd (release_buffer t (h, s))) = h \<and>
   fst (snd (add_observation r t (h, s))) = h \<and>
   fst (snd (buffer_data x y cur t i w (h, s))) = h @ [Observation_init x y cur i w] \<and>
   fst (snd (collect_stable_unsupervised fsub (h, su))) = h \<and>
   fst (snd (collect_stable_supervised fsub (h, su))) = h \<and>
   (\<exists>ob. fst (snd (buffer_unsupervised fsub x i cur w (h, su))) = h @ [ob] \<and> \<not> is_stable ob) \<and>
   (\<exists>ob. fst (snd (buffer_supervised fsub x z i cur w (h, su))) = h @ [ob] \<and> \<not> is_stable ob) \<and>
   (\<forall>k<length (fst (snd (ob_run cs (h, s)))).
      is_stable (fst (snd (ob_run cs (h, s))) ! k) = (k < length h \<and> is_stable (h ! k))) \<and>
   (\<forall>k<length (fst (su_run fsub scs (h, su))).
      is_stable (fst (su_run fsub scs (h, su)) ! k) = (k < length h \<and> is_stable (h ! k)))"
proof -
  have 1: "fst (snd (release_buffer t (h, s))) = h" "fst (snd (add_observation r t (h, s))) = h"
    "fst (snd (buffer_data x y cur t i w (h, s))) = h @ [Observation_init x y cur i w]"
    by (simp_all add: buffer_data_eq add_observation_eq release_buffer_eq)
  have 2: "fst (snd (collect_stable_unsupervised fsub (h, su))) = h"
    "fst (snd (collect_stable_supervised fsub (h, su))) = h"
    by (simp_all add: collect_stable_unsupervised_eq collect_stable_supervised_eq Let_def
        release_buffer_eq)
  have 3: "\<exists>ob. fst (snd (buffer_unsupervised fsub x i cur w (h, su))) = h @ [ob] \<and> \<not> is_stable ob"
    "\<exists>ob. fst (snd (buffer_supervised fsub x z i cur w (h, su))) = h @ [ob] \<and> \<not> is_stable ob"
    by (simp_all add: buffer_unsupervised_eq buffer_supervised_eq Let_def buffer_data_eq
        add_observation_eq release_buffer_eq Observation_init_def)
  have 4: "\<forall>k<length (fst (snd (ob_run cs (h, s)))).
      is_stable (fst (snd (ob_run cs (h, s))) ! k) = (k < length h \<and> is_stable (h ! k))"
    using ob_run_is_stable [of cs h s] by (auto simp only: is_stable_extended)
  have 5: "\<forall>k<length (fst (su_run fsub scs (h, su))).
      is_stable (fst (su_run fsub scs (h, su)) ! k) = (k < length h \<and> is_stable (h ! k))"
    using su_run_is_stable [of fsub scs h su] by (auto simp only: is_stable_extended)
  show ?thesis using 1 2 3 4 5 by blast
qed

theorem release_leaves_observations_witness:
  "fst (snd (release_buffer 2 (snd (ob_run example_calls ([], empty_buffer 2)))))
     = fst (snd (ob_run example_calls ([], empty_buffer 2))) \<and>
   fst (release_buffer 2 (snd (ob_run example_calls ([], empty_buffer 2)))) = [1] \<and>
   length (fst (snd (ob_run example_calls ([], empty_buffer 2)))) = 3 \<and>
   is_stable (fst (snd (ob_run example_calls ([], empty_buffer 2))) ! 1) = False \<and>
   length (fst su_after_calls) = 3 \<and>
   is_stable (fst su_after_calls ! 0) = False"
proof -
  define h1 where "h1 = [Observation_init [] None 1 0 1, Observation_init [] None 2 0 1,
    Observation_init [] None 3 0 1]"
  define s1 where "s1 = \<lparr> window_size = 2, buffer = [1, 2], active_window = [1, 2],
    stable_window = [0::nat] \<rparr>"
  have run: "ob_run example_calls ([], empty_buffer 2) = ([0], h1, s1)"
    by (simp add: example_calls_def empty_buffer_def h1_def s1_def buffer_data_def alloc_def
        add_observation_def release_buffer_def deque_append_def Observation_init_def)
  have rel: "fst (release_buffer 2 (h1, s1)) = [1]"
    by (simp add: h1_def s1_def release_buffer_def deque_append_def Observation_init_def)
  have len: "length h1 = 3" "length (fst su_after_calls) = 3"
    by (simp_all add: h1_def su_after_calls_eq)
  have su: "fst su_after_calls = fst (su_run (-) [Buffer_unsupervised [] 0 (- 1) 1,
             Buffer_supervised [] (Int_target 0) 0 (- 1) 1,
             Buffer_supervised [] (Int_target 0) 0 (- 1) 1] ([], example_su))"
    by (simp only: su_after_calls_def)
  note inst = release_leaves_observations [where fsub = "(-)" and h = "[]" and s = "empty_buffer 2"
      and cs = example_calls and su = example_su
      and scs = "[Buffer_unsupervised [] 0 (- 1) 1,
             Buffer_supervised [] (Int_target 0) 0 (- 1) 1,
             Buffer_supervised [] (Int_target 0) 0 (- 1) 1]"]
  have a: "is_stable (fst (snd (ob_run example_calls ([], empty_buffer 2))) ! 1) = False"
    using inst len by (simp add: run)
  have b: "is_stable (fst su_after_calls ! 0) = False"
    using inst len unfolding su by simp
  have c: "fst (snd (release_buffer 2 (h1, s1))) = h1"
    using release_leaves_observations [where h = h1 and s = s1 and t = 2] by blast
  show ?thesis using a b c rel len by (simp add: run)
qed

end
